theory Spec2Isabelle
  imports Main "HOL-Library.Word" "HOL-Library.Sublist" "HOL-Library.Product_Lexorder"
begin

section \<open>The Aho-Corasick pattern matcher of PatternMatcher.cpp\<close>

text \<open>
  The development follows \<^verbatim>\<open>PatternMatcher.h\<close> and \<^verbatim>\<open>PatternMatcher.cpp\<close>
  (the class of the same name in \<^verbatim>\<open>proyecto.cpp\<close> is a textual copy).

  \<^item> \<^verbatim>\<open>size_t\<close> is a 64-bit word: \<open>+\<close> and \<open>-\<close> wrap around as in C++.
    Loop counters that index a string stay natural numbers and are converted
    with \<open>of_nat\<close> where the source passes them on as \<^verbatim>\<open>size_t\<close>.
  \<^item> The trie is a store of nodes (a list); a pointer is an index into the store,
    \<open>None\<close> is \<^verbatim>\<open>nullptr\<close>, and \<^verbatim>\<open>root_\<close> is the node at address \<open>0\<close>:
    \<^verbatim>\<open>clear_trie\<close> throws the whole store away and allocates the root first.
  \<^item> A C++ exception is the outcome \<open>Raised\<close>, which keeps the object; undefined
    behaviour (a null pointer followed, an array or vector indexed out of range)
    is the outcome \<open>Undefined\<close>; a loop that never ends is \<open>None\<close>.
  \<^item> The timing and the printing under \<^verbatim>\<open>verbose_\<close> do not touch the results and are
    left out. The private members \<^verbatim>\<open>patterns_\<close>, \<^verbatim>\<open>verbose_\<close>, \<^verbatim>\<open>case_sensitive_\<close>,
    \<^verbatim>\<open>node_count_\<close> and \<^verbatim>\<open>max_depth_\<close> are the fields \<open>patterns\<close>, \<open>verbose\<close>,
    \<open>case_sensitive\<close>, \<open>node_count\<close> and \<open>max_depth\<close>; \<^verbatim>\<open>MatchResult::context\<close> is the
    field \<open>context_text\<close>.
\<close>

subsection \<open>Types\<close>

type_synonym size_t = "64 word"

type_synonym PatternID = nat

definition ALPHABET_SIZE :: nat where
  "ALPHABET_SIZE = 28"

datatype error = InvalidInput | OutOfRange | NullPointer | BadIndex

record MatchResult =
  line :: size_t
  column :: size_t
  pattern :: string
  context_text :: string
  pattern_id :: PatternID

record TrieNode =
  children :: "nat option list"
  is_end_of_word :: bool
  failure_link :: "nat option"
  output_link :: "nat option"
  pattern_indices :: "PatternID list"
  depth :: int

record PatternMatcher =
  heap :: "TrieNode list"
  patterns :: "string list"
  verbose :: bool
  case_sensitive :: bool
  node_count :: int
  max_depth :: int

datatype outcome = Ok PatternMatcher | Raised error PatternMatcher | Undefined error

text \<open>\<^verbatim>\<open>TrieNode() = default\<close>: no children, null links, no patterns, depth 0.\<close>

definition new_TrieNode :: TrieNode where
  "new_TrieNode =
     \<lparr>children = replicate ALPHABET_SIZE None, is_end_of_word = False,
      failure_link = None, output_link = None, pattern_indices = [], depth = 0\<rparr>"

text \<open>The constructor \<^verbatim>\<open>PatternMatcher(verbose, case_sensitive)\<close>.\<close>

definition new_PatternMatcher :: "bool \<Rightarrow> bool \<Rightarrow> PatternMatcher" where
  "new_PatternMatcher verb cs =
     \<lparr>heap = [new_TrieNode\<lparr>depth := 0\<rparr>], patterns = [], verbose = verb,
      case_sensitive = cs, node_count = 0, max_depth = 0\<rparr>"

subsection \<open>Characters\<close>

text \<open>
  \<^verbatim>\<open>std::isalpha\<close> and \<^verbatim>\<open>std::tolower\<close> of the C library in the "C" locale
  (the program never calls \<^verbatim>\<open>setlocale\<close>): the 52 ASCII letters.
\<close>

definition isalpha :: "char \<Rightarrow> bool" where
  "isalpha c = (let n = (of_char c :: nat) in (65 \<le> n \<and> n \<le> 90) \<or> (97 \<le> n \<and> n \<le> 122))"

definition tolower :: "char \<Rightarrow> char" where
  "tolower c = (let n = (of_char c :: nat) in if 65 \<le> n \<and> n \<le> 90 then char_of (n + 32) else c)"

definition newline :: char where
  "newline = CHR 0x0A"

definition tab :: char where
  "tab = CHR 0x09"

definition char_to_index :: "char \<Rightarrow> int" where
  "char_to_index c =
     (if c = CHR '' '' then 26
      else if c = CHR ''-'' then 27
      else if (of_char (CHR ''a'') :: nat) \<le> of_char c \<and> (of_char c :: nat) \<le> of_char (CHR ''z'')
        then int (of_char c) - int (of_char (CHR ''a''))
      else if (of_char (CHR ''A'') :: nat) \<le> of_char c \<and> (of_char c :: nat) \<le> of_char (CHR ''Z'')
        then int (of_char (tolower c)) - int (of_char (CHR ''a''))
      else - 1)"

fun clean_text :: "PatternMatcher \<Rightarrow> string \<Rightarrow> string" where
  "clean_text m [] = []"
| "clean_text m (c # cs) =
     (if isalpha c then (if case_sensitive m then c else tolower c) # clean_text m cs
      else if c = CHR '' '' \<or> c = CHR ''-'' \<or> c = newline then c # clean_text m cs
      else if c = tab then CHR '' '' # clean_text m cs
      else clean_text m cs)"

text \<open>
  \<^verbatim>\<open>split_lines\<close>: \<^verbatim>\<open>std::getline\<close> until it fails. A line ends at a newline;
  what follows the last newline is a line only when it is not empty.
\<close>

fun split_lines_from :: "string \<Rightarrow> string \<Rightarrow> string list" where
  "split_lines_from cur [] = (if cur = [] then [] else [cur])"
| "split_lines_from cur (c # cs) =
     (if c = newline then cur # split_lines_from [] cs else split_lines_from (cur @ [c]) cs)"

definition split_lines :: "string \<Rightarrow> string list" where
  "split_lines text = split_lines_from [] text"

subsection \<open>Building the trie\<close>

definition clear_trie :: "PatternMatcher \<Rightarrow> PatternMatcher" where
  "clear_trie m = m\<lparr>heap := [new_TrieNode], node_count := 1, max_depth := 0\<rparr>"

text \<open>
  The body of \<^verbatim>\<open>if (!node->children[idx])\<close> in \<^verbatim>\<open>build_trie\<close>: the new node gets
  the next free address.
\<close>

definition add_child :: "nat \<Rightarrow> nat \<Rightarrow> PatternMatcher \<Rightarrow> PatternMatcher" where
  "add_child node idx m =
     (let h = heap m;
          parent = h ! node;
          child = length h;
          d = depth parent + 1
      in m\<lparr>heap := h[node := parent\<lparr>children := (children parent)[idx := Some child]\<rparr>]
                     @ [new_TrieNode\<lparr>depth := d\<rparr>],
           max_depth := max (max_depth m) d,
           node_count := node_count m + 1\<rparr>)"

text \<open>
  The loop \<^verbatim>\<open>for (char c : pattern)\<close>. The source indexes \<^verbatim>\<open>children[idx]\<close> without
  looking at \<^verbatim>\<open>idx\<close>; \<^verbatim>\<open>char_to_index\<close> gives \<open>-1\<close> or a value below 28.
\<close>

fun insert_chars :: "string \<Rightarrow> nat \<Rightarrow> PatternMatcher \<Rightarrow> error + nat \<times> PatternMatcher" where
  "insert_chars [] node m = Inr (node, m)"
| "insert_chars (c # cs) node m =
     (let idx = char_to_index c in
      if idx < 0 then Inl BadIndex
      else
        let m1 = (if children (heap m ! node) ! nat idx = None then add_child node (nat idx) m else m)
        in case children (heap m1 ! node) ! nat idx of
             None \<Rightarrow> Inl NullPointer
           | Some child \<Rightarrow> insert_chars cs child m1)"

definition mark_end :: "nat \<Rightarrow> PatternID \<Rightarrow> PatternMatcher \<Rightarrow> PatternMatcher" where
  "mark_end node i m =
     (let h = heap m; n = h ! node
      in m\<lparr>heap := h[node := n\<lparr>is_end_of_word := True,
                                 pattern_indices := pattern_indices n @ [i]\<rparr>]\<rparr>)"

fun build_trie_loop :: "PatternID list \<Rightarrow> PatternMatcher \<Rightarrow> error + PatternMatcher" where
  "build_trie_loop [] m = Inr m"
| "build_trie_loop (i # is) m =
     (let pat = clean_text m (patterns m ! i) in
      if pat = [] then build_trie_loop is m
      else case insert_chars pat 0 m of
             Inl e \<Rightarrow> Inl e
           | Inr (node, m1) \<Rightarrow> build_trie_loop is (mark_end node i m1))"

definition build_trie :: "PatternMatcher \<Rightarrow> error + PatternMatcher" where
  "build_trie m = build_trie_loop [0..<length (patterns m)] m"

subsection \<open>Failure and output links\<close>

text \<open>
  \<^verbatim>\<open>while (p != root && !p->children[i]) p = p->failure_link;\<close> returns the node at
  which the loop stops. Testing the condition on \<^verbatim>\<open>nullptr\<close> follows a null pointer.
  \<^verbatim>\<open>build_failure_links\<close> and \<^verbatim>\<open>search\<close> both run this loop.
\<close>

partial_function (option) follow_failure ::
  "TrieNode list \<Rightarrow> nat option \<Rightarrow> nat \<Rightarrow> (error + nat) option" where
  "follow_failure h p i =
     (case p of
        None \<Rightarrow> Some (Inl NullPointer)
      | Some n \<Rightarrow>
          if n \<noteq> 0 \<and> children (h ! n) ! i = None
          then follow_failure h (failure_link (h ! n)) i
          else Some (Inr n))"

declare follow_failure.simps [code]

text \<open>The first loop of \<^verbatim>\<open>build_failure_links\<close>, over the children of the root.\<close>

fun link_root_children :: "nat list \<Rightarrow> nat list \<Rightarrow> TrieNode list \<Rightarrow> nat list \<times> TrieNode list" where
  "link_root_children [] q h = (q, h)"
| "link_root_children (i # is) q h =
     (case children (h ! 0) ! i of
        None \<Rightarrow> link_root_children is q h
      | Some child \<Rightarrow>
          link_root_children is (q @ [child]) (h[child := (h ! child)\<lparr>failure_link := Some 0\<rparr>]))"

text \<open>
  The inner loop over the children of the node \<open>current\<close> taken from the queue.
  The output link is read from the store after the failure link was written.
\<close>

fun link_children ::
  "nat list \<Rightarrow> nat \<Rightarrow> nat list \<Rightarrow> TrieNode list \<Rightarrow> (error + nat list \<times> TrieNode list) option" where
  "link_children [] current q h = Some (Inr (q, h))"
| "link_children (i # is) current q h =
     (case children (h ! current) ! i of
        None \<Rightarrow> link_children is current q h
      | Some child \<Rightarrow>
          (case follow_failure h (failure_link (h ! current)) i of
             None \<Rightarrow> None
           | Some (Inl e) \<Rightarrow> Some (Inl e)
           | Some (Inr failure) \<Rightarrow>
               (let fl = (case children (h ! failure) ! i of Some g \<Rightarrow> g | None \<Rightarrow> 0);
                    h1 = h[child := (h ! child)\<lparr>failure_link := Some fl\<rparr>];
                    ol = (if pattern_indices (h1 ! fl) = [] then output_link (h1 ! fl) else Some fl);
                    h2 = h1[child := (h1 ! child)\<lparr>output_link := ol\<rparr>]
                in link_children is current (q @ [child]) h2)))"

partial_function (option) bfs_loop ::
  "nat list \<Rightarrow> TrieNode list \<Rightarrow> (error + TrieNode list) option" where
  "bfs_loop q h =
     (case q of
        [] \<Rightarrow> Some (Inr h)
      | current # rest \<Rightarrow>
          (case link_children [0..<ALPHABET_SIZE] current rest h of
             None \<Rightarrow> None
           | Some (Inl e) \<Rightarrow> Some (Inl e)
           | Some (Inr (q', h')) \<Rightarrow> bfs_loop q' h'))"

declare bfs_loop.simps [code]

definition build_failure_links :: "PatternMatcher \<Rightarrow> (error + PatternMatcher) option" where
  "build_failure_links m =
     (let h0 = (heap m)[0 := (heap m ! 0)\<lparr>failure_link := Some 0\<rparr>];
          (q, h1) = link_root_children [0..<ALPHABET_SIZE] [] h0
      in case bfs_loop q h1 of
           None \<Rightarrow> None
         | Some (Inl e) \<Rightarrow> Some (Inl e)
         | Some (Inr h2) \<Rightarrow> Some (Inr (m\<lparr>heap := h2\<rparr>)))"

definition initialize :: "string list \<Rightarrow> PatternMatcher \<Rightarrow> outcome option" where
  "initialize pats m =
     (if pats = [] then Some (Raised InvalidInput m)
      else
        case build_trie (clear_trie (m\<lparr>patterns := pats\<rparr>)) of
          Inl e \<Rightarrow> Some (Undefined e)
        | Inr m1 \<Rightarrow>
            (case build_failure_links m1 of
               None \<Rightarrow> None
             | Some (Inl e) \<Rightarrow> Some (Undefined e)
             | Some (Inr m2) \<Rightarrow> Some (Ok m2)))"

subsection \<open>Searching\<close>

text \<open>
  \<^verbatim>\<open>std::string::substr(pos, n)\<close> throws \<^verbatim>\<open>std::out_of_range\<close> when \<open>pos\<close> is beyond
  the end and otherwise returns at most \<open>n\<close> characters from \<open>pos\<close> on.
\<close>

definition substr :: "string \<Rightarrow> size_t \<Rightarrow> size_t \<Rightarrow> error + string" where
  "substr s pos n =
     (if length s < unat pos then Inl OutOfRange else Inr (take (unat n) (drop (unat pos) s)))"

definition str_length :: "string \<Rightarrow> size_t" where
  "str_length s = of_nat (length s)"

text \<open>
  \<^verbatim>\<open>std::unique\<close> with the predicate \<^verbatim>\<open>a == ' ' && b == ' '\<close>, followed by
  \<^verbatim>\<open>erase\<close>: of a run of spaces the first one stays.
\<close>

fun unique_spaces :: "string \<Rightarrow> string" where
  "unique_spaces (a # b # cs) =
     (if a = CHR '' '' \<and> b = CHR '' '' then unique_spaces (a # cs) else a # unique_spaces (b # cs))"
| "unique_spaces cs = cs"

text \<open>
  The two bounds of the context in \<^verbatim>\<open>collect_matches\<close>:
  \<^verbatim>\<open>start = (pos + 1 > pattern.length()) ? std::min(pos - pattern.length(), line_text.length()) : 0\<close>
  and \<^verbatim>\<open>end = std::min(pos + context_size, line_text.length())\<close>, in \<^verbatim>\<open>size_t\<close> arithmetic.
\<close>

definition context_start :: "size_t \<Rightarrow> size_t \<Rightarrow> size_t \<Rightarrow> size_t" where
  "context_start pos pattern_length line_length =
     (if pos + 1 > pattern_length then min (pos - pattern_length) line_length else 0)"

definition context_end :: "size_t \<Rightarrow> size_t \<Rightarrow> size_t \<Rightarrow> size_t" where
  "context_end pos context_size line_length = min (pos + context_size) line_length"

text \<open>The body of the inner loop of \<^verbatim>\<open>collect_matches\<close>, for one pattern id.\<close>

definition make_match ::
  "PatternMatcher \<Rightarrow> PatternID \<Rightarrow> size_t \<Rightarrow> size_t \<Rightarrow> string \<Rightarrow> size_t \<Rightarrow> size_t \<Rightarrow> error + MatchResult" where
  "make_match m pattern_idx ln col line_text pos context_size =
     (if length (patterns m) \<le> pattern_idx then Inl BadIndex
      else
        let pat = patterns m ! pattern_idx;
            start = context_start pos (str_length pat) (str_length line_text);
            stop = context_end pos context_size (str_length line_text)
        in case substr line_text start (stop - start) of
             Inl e \<Rightarrow> Inl e
           | Inr ctx \<Rightarrow>
               Inr \<lparr>line = ln, column = col - str_length pat + 1, pattern = pat,
                    context_text = unique_spaces ctx, pattern_id = pattern_idx\<rparr>)"

fun collect_node ::
  "PatternMatcher \<Rightarrow> PatternID list \<Rightarrow> MatchResult list \<Rightarrow> size_t \<Rightarrow> size_t \<Rightarrow> string \<Rightarrow> size_t \<Rightarrow> size_t
     \<Rightarrow> error + MatchResult list" where
  "collect_node m [] matches ln col line_text pos context_size = Inr matches"
| "collect_node m (pattern_idx # rest) matches ln col line_text pos context_size =
     (case make_match m pattern_idx ln col line_text pos context_size of
        Inl e \<Rightarrow> Inl e
      | Inr r \<Rightarrow> collect_node m rest (matches @ [r]) ln col line_text pos context_size)"

text \<open>The outer loop \<^verbatim>\<open>for (temp = node; temp != nullptr; temp = temp->output_link)\<close>.\<close>

partial_function (option) collect_matches ::
  "PatternMatcher \<Rightarrow> nat option \<Rightarrow> MatchResult list \<Rightarrow> size_t \<Rightarrow> size_t \<Rightarrow> string \<Rightarrow> size_t \<Rightarrow> size_t
     \<Rightarrow> (error + MatchResult list) option" where
  "collect_matches m temp matches ln col line_text pos context_size =
     (case temp of
        None \<Rightarrow> Some (Inr matches)
      | Some t \<Rightarrow>
          (case collect_node m (pattern_indices (heap m ! t)) matches ln col line_text pos context_size of
             Inl e \<Rightarrow> Some (Inl e)
           | Inr matches' \<Rightarrow>
               collect_matches m (output_link (heap m ! t)) matches' ln col line_text pos context_size))"

declare collect_matches.simps [code]

text \<open>
  The loop over the columns of one line: \<open>cs\<close> is the rest of the line from column
  \<open>col\<close> (counted from 0) on, \<open>current_node\<close> the state of the automaton.
\<close>

fun scan_line ::
  "PatternMatcher \<Rightarrow> nat \<Rightarrow> string \<Rightarrow> size_t \<Rightarrow> string \<Rightarrow> nat \<Rightarrow> nat \<Rightarrow> MatchResult list
     \<Rightarrow> (error + MatchResult list) option" where
  "scan_line m line_num line_text context_size [] col current_node matches = Some (Inr matches)"
| "scan_line m line_num line_text context_size (c # cs) col current_node matches =
     (let idx = char_to_index c in
      if idx = - 1 then scan_line m line_num line_text context_size cs (col + 1) current_node matches
      else
        case follow_failure (heap m) (Some current_node) (nat idx) of
          None \<Rightarrow> None
        | Some (Inl e) \<Rightarrow> Some (Inl e)
        | Some (Inr n) \<Rightarrow>
            (let node = (case children (heap m ! n) ! nat idx of Some child \<Rightarrow> child | None \<Rightarrow> n) in
             if pattern_indices (heap m ! node) \<noteq> [] then
               case collect_matches m (Some node) matches (of_nat line_num + 1) (of_nat col + 1)
                      line_text (of_nat col) context_size of
                 None \<Rightarrow> None
               | Some (Inl e) \<Rightarrow> Some (Inl e)
               | Some (Inr matches') \<Rightarrow>
                   scan_line m line_num line_text context_size cs (col + 1) node matches'
             else scan_line m line_num line_text context_size cs (col + 1) node matches))"

text \<open>The loop over the lines; every line starts at the root.\<close>

fun scan_lines ::
  "PatternMatcher \<Rightarrow> size_t \<Rightarrow> string list \<Rightarrow> nat \<Rightarrow> MatchResult list \<Rightarrow> (error + MatchResult list) option" where
  "scan_lines m context_size [] line_num matches = Some (Inr matches)"
| "scan_lines m context_size (l # ls) line_num matches =
     (case scan_line m line_num l context_size l 0 0 matches of
        None \<Rightarrow> None
      | Some (Inl e) \<Rightarrow> Some (Inl e)
      | Some (Inr matches') \<Rightarrow> scan_lines m context_size ls (line_num + 1) matches')"

text \<open>\<^verbatim>\<open>MatchResult::operator<\<close>: \<^verbatim>\<open>std::tie\<close> compares lexicographically.\<close>

definition MatchResult_less :: "MatchResult \<Rightarrow> MatchResult \<Rightarrow> bool" where
  "MatchResult_less a b =
     (line a < line b \<or> (line a = line b \<and>
       (column a < column b \<or> (column a = column b \<and> pattern_id a < pattern_id b))))"

definition sort_key_of :: "MatchResult \<Rightarrow> size_t \<times> size_t \<times> PatternID" where
  "sort_key_of r = (line r, column r, pattern_id r)"

text \<open>
  \<^verbatim>\<open>std::sort\<close> with \<^verbatim>\<open>operator<\<close>. The standard leaves the order of records that
  compare equal open; the model sorts by insertion.
\<close>

definition std_sort :: "MatchResult list \<Rightarrow> MatchResult list" where
  "std_sort matches = sort_key sort_key_of matches"

definition collect_all :: "PatternMatcher \<Rightarrow> string \<Rightarrow> size_t \<Rightarrow> (error + MatchResult list) option" where
  "collect_all m text context_size =
     scan_lines m context_size (split_lines (clean_text m text)) 0 []"

definition search :: "PatternMatcher \<Rightarrow> string \<Rightarrow> size_t \<Rightarrow> (error + MatchResult list) option" where
  "search m text context_size =
     (case collect_all m text context_size of
        None \<Rightarrow> None
      | Some (Inl e) \<Rightarrow> Some (Inl e)
      | Some (Inr matches) \<Rightarrow> Some (Inr (std_sort matches)))"

text \<open>
  A client as in the test \<^verbatim>\<open>pattern_search\<close>: construct a matcher, initialize it,
  search. \<open>automaton\<close> is the matcher after the first two steps.
\<close>

definition automaton :: "bool \<Rightarrow> string list \<Rightarrow> PatternMatcher" where
  "automaton cs pats =
     (case initialize pats (new_PatternMatcher False cs) of
        Some (Ok m) \<Rightarrow> m
      | _ \<Rightarrow> new_PatternMatcher False cs)"

definition run_search :: "bool \<Rightarrow> string list \<Rightarrow> string \<Rightarrow> size_t \<Rightarrow> (error + MatchResult list) option" where
  "run_search cs pats text context_size =
     (case initialize pats (new_PatternMatcher False cs) of
        None \<Rightarrow> None
      | Some (Ok m) \<Rightarrow> search m text context_size
      | Some (Raised e m) \<Rightarrow> Some (Inl e)
      | Some (Undefined e) \<Rightarrow> Some (Inl e))"

section \<open>Invariants and auxiliary notions\<close>

definition idx_of :: "char \<Rightarrow> nat" where
  "idx_of c = nat (char_to_index c)"

definition line_char :: "char \<Rightarrow> bool" where
  "line_char c \<longleftrightarrow> isalpha c \<or> c = CHR '' '' \<or> c = CHR ''-''"

definition trie_ok :: "TrieNode list \<Rightarrow> (nat \<Rightarrow> nat list) \<Rightarrow> bool" where
  "trie_ok h W \<longleftrightarrow>
     h \<noteq> [] \<and> W 0 = [] \<and>
     (\<forall>a < length h.
        length (children (h ! a)) = ALPHABET_SIZE \<and>
        depth (h ! a) = int (length (W a)) \<and>
        (\<forall>i c. i < ALPHABET_SIZE \<and> children (h ! a) ! i = Some c \<longrightarrow>
           c < length h \<and> W c = W a @ [i]))"

definition no_links :: "TrieNode list \<Rightarrow> bool" where
  "no_links h \<longleftrightarrow> (\<forall>a < length h. failure_link (h ! a) = None \<and> output_link (h ! a) = None)"

definition pattern_at :: "PatternMatcher \<Rightarrow> PatternID \<Rightarrow> nat list \<Rightarrow> bool" where
  "pattern_at m i w \<longleftrightarrow>
     i < length (patterns m) \<and>
     clean_text m (patterns m ! i) \<noteq> [] \<and>
     (\<forall>c \<in> set (clean_text m (patterns m ! i)). 0 \<le> char_to_index c) \<and>
     map idx_of (clean_text m (patterns m ! i)) = w"

definition pats_ok :: "PatternMatcher \<Rightarrow> (nat \<Rightarrow> nat list) \<Rightarrow> bool" where
  "pats_ok m W \<longleftrightarrow>
     (\<forall>a < length (heap m). \<forall>i \<in> set (pattern_indices (heap m ! a)). pattern_at m i (W a))"

definition grows :: "PatternMatcher \<Rightarrow> PatternMatcher \<Rightarrow> bool" where
  "grows m m' \<longleftrightarrow>
     length (heap m) \<le> length (heap m') \<and>
     patterns m' = patterns m \<and> case_sensitive m' = case_sensitive m \<and>
     (\<forall>a < length (heap m).
        pattern_indices (heap m' ! a) = pattern_indices (heap m ! a) \<and>
        failure_link (heap m' ! a) = failure_link (heap m ! a) \<and>
        output_link (heap m' ! a) = output_link (heap m ! a)) \<and>
     (\<forall>a. length (heap m) \<le> a \<and> a < length (heap m') \<longrightarrow>
        pattern_indices (heap m' ! a) = [] \<and>
        failure_link (heap m' ! a) = None \<and> output_link (heap m' ! a) = None)"

definition build_inv :: "PatternMatcher \<Rightarrow> (nat \<Rightarrow> nat list) \<Rightarrow> bool" where
  "build_inv m W \<longleftrightarrow> trie_ok (heap m) W \<and> pats_ok m W \<and> no_links (heap m)"

definition links_ok :: "TrieNode list \<Rightarrow> (nat \<Rightarrow> nat list) \<Rightarrow> bool" where
  "links_ok h W \<longleftrightarrow>
     (\<forall>a < length h.
        (\<forall>f. failure_link (h ! a) = Some f \<longrightarrow>
           f < length h \<and> suffix (W f) (W a) \<and> (a \<noteq> 0 \<longrightarrow> length (W f) < length (W a))) \<and>
        (\<forall>g. output_link (h ! a) = Some g \<longrightarrow>
           g < length h \<and> suffix (W g) (W a) \<and> length (W g) < length (W a) \<and>
           pattern_indices (h ! g) \<noteq> []))"

definition queue_ok :: "TrieNode list \<Rightarrow> nat list \<Rightarrow> bool" where
  "queue_ok h q \<longleftrightarrow> (\<forall>c \<in> set q. c < length h \<and> c \<noteq> 0)"

definition same_shape :: "TrieNode list \<Rightarrow> TrieNode list \<Rightarrow> bool" where
  "same_shape h h' \<longleftrightarrow>
     length h' = length h \<and>
     (\<forall>a < length h. children (h' ! a) = children (h ! a) \<and> depth (h' ! a) = depth (h ! a) \<and>
        pattern_indices (h' ! a) = pattern_indices (h ! a))"

definition linked :: "TrieNode list \<Rightarrow> (nat \<Rightarrow> nat list) \<Rightarrow> bool" where
  "linked h W \<longleftrightarrow> trie_ok h W \<and> links_ok h W \<and> failure_link (h ! 0) = Some 0"

definition ready :: "PatternMatcher \<Rightarrow> (nat \<Rightarrow> nat list) \<Rightarrow> bool" where
  "ready m W \<longleftrightarrow> linked (heap m) W \<and> pats_ok m W"

definition the_match ::
  "PatternMatcher \<Rightarrow> PatternID \<Rightarrow> size_t \<Rightarrow> size_t \<Rightarrow> string \<Rightarrow> size_t \<Rightarrow> size_t \<Rightarrow> MatchResult" where
  "the_match m pattern_idx ln col line_text pos context_size =
     (let pat = patterns m ! pattern_idx;
          start = context_start pos (str_length pat) (str_length line_text);
          stop = context_end pos context_size (str_length line_text)
      in \<lparr>line = ln, column = col - str_length pat + 1, pattern = pat,
          context_text = unique_spaces (take (unat (stop - start)) (drop (unat start) line_text)),
          pattern_id = pattern_idx\<rparr>)"

inductive in_chain :: "PatternMatcher \<Rightarrow> nat option \<Rightarrow> nat \<Rightarrow> bool" for m where
  chain_here: "in_chain m (Some t) t"
| chain_next: "in_chain m (output_link (heap m ! t)) t' \<Longrightarrow> in_chain m (Some t) t'"

definition emitted ::
  "PatternMatcher \<Rightarrow> nat option \<Rightarrow> size_t \<Rightarrow> size_t \<Rightarrow> string \<Rightarrow> size_t \<Rightarrow> size_t \<Rightarrow> MatchResult \<Rightarrow> bool" where
  "emitted m temp ln col lt pos ctx r \<longleftrightarrow>
     (\<exists>t pid. in_chain m temp t \<and> pid \<in> set (pattern_indices (heap m ! t)) \<and>
        pid < length (patterns m) \<and> r = the_match m pid ln col lt pos ctx)"

definition match_at ::
  "PatternMatcher \<Rightarrow> size_t \<Rightarrow> nat \<Rightarrow> string \<Rightarrow> nat \<Rightarrow> PatternID \<Rightarrow> MatchResult \<Rightarrow> bool" where
  "match_at m ctx k lt pos pid r \<longleftrightarrow>
     pos < length lt \<and> pid < length (patterns m) \<and>
     r = the_match m pid (of_nat k + 1) (of_nat pos + 1) lt (of_nat pos) ctx"

definition pattern_ends :: "PatternMatcher \<Rightarrow> PatternID \<Rightarrow> string \<Rightarrow> bool" where
  "pattern_ends m pid s \<longleftrightarrow>
     clean_text m (patterns m ! pid) \<noteq> [] \<and>
     suffix (map char_to_index (clean_text m (patterns m ! pid))) (map char_to_index s)"

definition scan_pre :: "PatternMatcher \<Rightarrow> (nat \<Rightarrow> nat list) \<Rightarrow> string \<Rightarrow> nat \<Rightarrow> nat \<Rightarrow> bool" where
  "scan_pre m W lt col cur \<longleftrightarrow>
     ready m W \<and> (\<forall>c \<in> set lt. 0 \<le> char_to_index c) \<and> cur < length (heap m) \<and>
     suffix (W cur) (map idx_of (take col lt))"

definition found :: "PatternMatcher \<Rightarrow> size_t \<Rightarrow> nat \<Rightarrow> string \<Rightarrow> bool \<Rightarrow> MatchResult \<Rightarrow> bool" where
  "found m ctx k lt P r \<longleftrightarrow>
     (\<exists>pos pid. match_at m ctx k lt pos pid r \<and> (P \<longrightarrow> pattern_ends m pid (take (Suc pos) lt)))"

section \<open>Runs on concrete inputs\<close>

text \<open>
  The test \<^verbatim>\<open>pattern_search\<close>: the patterns he, she, hers in the text ushers give
  three records, she first.
\<close>

lemma ushers_matches:
  "run_search False [''he'', ''she'', ''hers''] ''ushers'' 20 =
     Some (Inr [\<lparr>line = 1, column = 2, pattern = ''she'', context_text = ''ushers'', pattern_id = 1\<rparr>,
                \<lparr>line = 1, column = 3, pattern = ''he'', context_text = ''shers'', pattern_id = 0\<rparr>,
                \<lparr>line = 1, column = 3, pattern = ''hers'', context_text = ''shers'', pattern_id = 2\<rparr>])"
  by code_simp

text \<open>
  Claim C1 (every pattern that ends at the scan position is reported, also when only
  the output-link chain of the current state holds patterns). \<^verbatim>\<open>search\<close> calls
  \<^verbatim>\<open>collect_matches\<close> only when the current node itself holds a pattern. With the
  patterns abc and b, the state after reading ab is node 2: it holds no pattern, its
  output link is node 4, which holds pattern 1 (b). The text ab contains b at column
  2, and the search reports nothing.
\<close>

theorem C1_output_chain_skipped:
  "run_search False [''abc'', ''b''] ''ab'' 20 = Some (Inr []) \<and>
   pattern_indices (heap (automaton False [''abc'', ''b'']) ! 2) = [] \<and>
   output_link (heap (automaton False [''abc'', ''b'']) ! 2) = Some 4 \<and>
   pattern_indices (heap (automaton False [''abc'', ''b'']) ! 4) = [1]"
  by code_simp

text \<open>
  Claim C2 (the normalized pattern of every record occurs in the normalized line).
  In case-sensitive mode the normalized pattern HE stays HE and the normalized
  line the stays the, yet a record for HE at column 2 is returned: \<^verbatim>\<open>char_to_index\<close>
  maps capital letters to the code of the small letter.
\<close>

theorem C2_case_sensitive_false_match:
  "run_search True [''HE''] ''the'' 20 =
     Some (Inr [\<lparr>line = 1, column = 2, pattern = ''HE'', context_text = ''the'', pattern_id = 0\<rparr>]) \<and>
   clean_text (automaton True [''HE'']) ''HE'' = ''HE'' \<and>
   split_lines (clean_text (automaton True [''HE'']) ''the'') = [''the'']"
  by code_simp

text \<open>With case-sensitivity disabled the pattern He is found in he and in HE.\<close>

lemma case_insensitive_He:
  "run_search False [''He''] ''he'' 20 =
     Some (Inr [\<lparr>line = 1, column = 1, pattern = ''He'', context_text = ''he'', pattern_id = 0\<rparr>]) \<and>
   run_search False [''He''] ''HE'' 20 =
     Some (Inr [\<lparr>line = 1, column = 1, pattern = ''He'', context_text = ''he'', pattern_id = 0\<rparr>])"
  by code_simp

text \<open>
  Claim C3 (with case-sensitivity enabled only exact-case occurrences match). A
  case-sensitive matcher with the pattern He reports a match in the text he.
\<close>

theorem C3_case_sensitive_matches_other_case:
  "run_search True [''He''] ''he'' 20 =
     Some (Inr [\<lparr>line = 1, column = 1, pattern = ''He'', context_text = ''he'', pattern_id = 0\<rparr>])"
  by code_simp

text \<open>
  Claim C4 (initialize fails only for the empty sequence and succeeds for every
  non-empty one). \<^verbatim>\<open>clean_text\<close> keeps a newline, \<^verbatim>\<open>char_to_index\<close> maps it to
  \<open>-1\<close>, and \<^verbatim>\<open>build_trie\<close> indexes \<^verbatim>\<open>children[-1]\<close>: the loop in \<^verbatim>\<open>search\<close> skips
  such a character, the loop in \<^verbatim>\<open>build_trie\<close> does not.
\<close>

theorem C4_newline_pattern_undefined:
  "initialize [''a'' @ [newline] @ ''b''] (new_PatternMatcher False False) = Some (Undefined BadIndex)"
  by code_simp

section \<open>The trie and its links\<close>

lemma of_char_lt_256: "(of_char c :: nat) < 256"
  by (cases c) simp

lemma char_to_index_range: "- 1 \<le> char_to_index c \<and> char_to_index c < 28"
  using of_char_lt_256 [of c]
  by (auto simp: char_to_index_def tolower_def Let_def)

lemma idx_of_less: "idx_of c < ALPHABET_SIZE"
  using char_to_index_range [of c] unfolding idx_of_def ALPHABET_SIZE_def by linarith

lemma char_to_index_isalpha: "isalpha c \<Longrightarrow> 0 \<le> char_to_index c"
  using of_char_lt_256 [of c]
  by (auto simp: char_to_index_def tolower_def isalpha_def Let_def)

lemma isalpha_tolower: "isalpha c \<Longrightarrow> isalpha (tolower c)"
  using of_char_lt_256 [of c]
  by (auto simp: tolower_def isalpha_def Let_def)

lemma line_char_index: "line_char c \<Longrightarrow> 0 \<le> char_to_index c"
  by (auto simp: line_char_def char_to_index_isalpha) (simp_all add: char_to_index_def)

lemma clean_text_chars: "c \<in> set (clean_text m t) \<Longrightarrow> line_char c \<or> c = newline"
  by (induction t) (auto simp: line_char_def isalpha_tolower split: if_splits)

lemma split_lines_from_chars:
  "l \<in> set (split_lines_from cur cs) \<Longrightarrow> newline \<notin> set cur \<Longrightarrow> set l \<subseteq> (set cur \<union> set cs) - {newline}"
  by (induction cur cs rule: split_lines_from.induct) (auto split: if_splits)

lemma split_lines_chars: "l \<in> set (split_lines t) \<Longrightarrow> set l \<subseteq> set t - {newline}"
  using split_lines_from_chars [of l "[]" t] by (simp add: split_lines_def)

lemma search_line_chars:
  assumes "l \<in> set (split_lines (clean_text m t))" "c \<in> set l"
  shows "line_char c" "c \<noteq> newline"
  using split_lines_chars [OF assms(1)] assms(2) clean_text_chars [of c m t] by auto

lemma trie_okD:
  assumes "trie_ok h W" "a < length h"
  shows "length (children (h ! a)) = ALPHABET_SIZE" "depth (h ! a) = int (length (W a))"
    and "i < ALPHABET_SIZE \<Longrightarrow> children (h ! a) ! i = Some c \<Longrightarrow> c < length h \<and> W c = W a @ [i]"
  using assms unfolding trie_ok_def by blast+

lemma trie_ok_root: "trie_ok h W \<Longrightarrow> 0 < length h \<and> W 0 = []"
  unfolding trie_ok_def by simp

lemma trie_ok_child_nonroot:
  assumes "trie_ok h W" "a < length h" "i < ALPHABET_SIZE" "children (h ! a) ! i = Some c"
  shows "c \<noteq> 0"
proof
  assume "c = 0"
  with trie_okD(3) [OF assms] have "W 0 = W a @ [i]" by simp
  with trie_ok_root [OF assms(1)] show False by simp
qed

lemma trie_ok_new: "trie_ok [new_TrieNode] (\<lambda>_. [])"
  by (simp add: trie_ok_def new_TrieNode_def)

lemma trie_ok_add_child:
  assumes ok: "trie_ok (heap m) W" and node: "node < length (heap m)" and i: "i < ALPHABET_SIZE"
  shows "trie_ok (heap (add_child node i m)) (W(length (heap m) := W node @ [i]))"
proof -
  let ?h = "heap m"
  let ?n = "length ?h"
  let ?W = "W(?n := W node @ [i])"
  let ?h' = "heap (add_child node i m)"
  have h': "?h' = ?h[node := (?h ! node)\<lparr>children := (children (?h ! node))[i := Some ?n]\<rparr>]
                  @ [new_TrieNode\<lparr>depth := depth (?h ! node) + 1\<rparr>]"
    by (simp add: add_child_def Let_def)
  have len: "length ?h' = Suc ?n" by (simp add: h')
  have root: "0 < ?n" "W 0 = []" using trie_ok_root [OF ok] by auto
  have "\<forall>a < length ?h'.
        length (children (?h' ! a)) = ALPHABET_SIZE \<and>
        depth (?h' ! a) = int (length (?W a)) \<and>
        (\<forall>j c. j < ALPHABET_SIZE \<and> children (?h' ! a) ! j = Some c \<longrightarrow>
           c < length ?h' \<and> ?W c = ?W a @ [j])"
  proof (intro allI impI)
    fix a assume a: "a < length ?h'"
    consider "a = ?n" | "a = node" "a < ?n" | "a \<noteq> node" "a < ?n" using a len by linarith
    then show "length (children (?h' ! a)) = ALPHABET_SIZE \<and>
        depth (?h' ! a) = int (length (?W a)) \<and>
        (\<forall>j c. j < ALPHABET_SIZE \<and> children (?h' ! a) ! j = Some c \<longrightarrow>
           c < length ?h' \<and> ?W c = ?W a @ [j])"
    proof cases
      case 1
      then show ?thesis
        using trie_okD(2) [OF ok node]
        by (auto simp: h' len nth_append new_TrieNode_def)
    next
      case 2
      have A: "?h' ! node = (?h ! node)\<lparr>children := (children (?h ! node))[i := Some ?n]\<rparr>"
        using node by (simp add: h' nth_append)
      show ?thesis
        unfolding 2(1) using trie_okD [OF ok node] node i
        by (auto simp: A len nth_list_update less_Suc_eq)
    next
      case 3
      have A: "?h' ! a = ?h ! a" using 3 by (simp add: h' nth_append)
      show ?thesis
        using trie_okD [OF ok 3(2)] 3 by (auto simp: A len less_Suc_eq)
    qed
  qed
  then show ?thesis
    using root len unfolding trie_ok_def by (simp add: h')
qed

lemma clean_text_cong: "case_sensitive m' = case_sensitive m \<Longrightarrow> clean_text m' t = clean_text m t"
  by (induction t) simp_all

lemma pattern_at_cong:
  "patterns m' = patterns m \<Longrightarrow> case_sensitive m' = case_sensitive m \<Longrightarrow>
   pattern_at m' i w = pattern_at m i w"
  using clean_text_cong [of m' m] by (simp add: pattern_at_def)

lemma grows_refl: "grows m m"
  by (auto simp: grows_def)

lemma growsD:
  assumes "grows m m'"
  shows "length (heap m) \<le> length (heap m')" "patterns m' = patterns m"
    "case_sensitive m' = case_sensitive m"
    and "a < length (heap m) \<Longrightarrow> pattern_indices (heap m' ! a) = pattern_indices (heap m ! a)"
    and "a < length (heap m) \<Longrightarrow> failure_link (heap m' ! a) = failure_link (heap m ! a)"
    and "a < length (heap m) \<Longrightarrow> output_link (heap m' ! a) = output_link (heap m ! a)"
    and "length (heap m) \<le> a \<Longrightarrow> a < length (heap m') \<Longrightarrow> pattern_indices (heap m' ! a) = []"
    and "length (heap m) \<le> a \<Longrightarrow> a < length (heap m') \<Longrightarrow> failure_link (heap m' ! a) = None"
    and "length (heap m) \<le> a \<Longrightarrow> a < length (heap m') \<Longrightarrow> output_link (heap m' ! a) = None"
  using assms by (simp_all add: grows_def)

lemma grows_trans:
  assumes A: "grows m m1" and B: "grows m1 m2"
  shows "grows m m2"
  unfolding grows_def
proof (intro conjI allI impI)
  show "length (heap m) \<le> length (heap m2)"
    using growsD(1) [OF A] growsD(1) [OF B] by simp
  show "patterns m2 = patterns m" using growsD(2) [OF A] growsD(2) [OF B] by simp
  show "case_sensitive m2 = case_sensitive m" using growsD(3) [OF A] growsD(3) [OF B] by simp
next
  fix a assume a: "a < length (heap m)"
  then have a1: "a < length (heap m1)" using growsD(1) [OF A] by simp
  show "pattern_indices (heap m2 ! a) = pattern_indices (heap m ! a)"
    using growsD(4) [OF A a] growsD(4) [OF B a1] by simp
  show "failure_link (heap m2 ! a) = failure_link (heap m ! a)"
    using growsD(5) [OF A a] growsD(5) [OF B a1] by simp
  show "output_link (heap m2 ! a) = output_link (heap m ! a)"
    using growsD(6) [OF A a] growsD(6) [OF B a1] by simp
next
  fix a assume a: "length (heap m) \<le> a \<and> a < length (heap m2)"
  show "pattern_indices (heap m2 ! a) = []"
  proof (cases "a < length (heap m1)")
    case True
    then show ?thesis using growsD(4) [OF B True] growsD(7) [OF A _ True] a by simp
  next
    case False
    then show ?thesis using growsD(7) [OF B, of a] a by simp
  qed
  show "failure_link (heap m2 ! a) = None"
  proof (cases "a < length (heap m1)")
    case True
    then show ?thesis using growsD(5) [OF B True] growsD(8) [OF A _ True] a by simp
  next
    case False
    then show ?thesis using growsD(8) [OF B, of a] a by simp
  qed
  show "output_link (heap m2 ! a) = None"
  proof (cases "a < length (heap m1)")
    case True
    then show ?thesis using growsD(6) [OF B True] growsD(9) [OF A _ True] a by simp
  next
    case False
    then show ?thesis using growsD(9) [OF B, of a] a by simp
  qed
qed

lemma grows_add_child:
  assumes "node < length (heap m)"
  shows "grows m (add_child node i m)"
proof -
  let ?h = "heap m"
  have h': "heap (add_child node i m) =
      ?h[node := (?h ! node)\<lparr>children := (children (?h ! node))[i := Some (length ?h)]\<rparr>]
                  @ [new_TrieNode\<lparr>depth := depth (?h ! node) + 1\<rparr>]"
    by (simp add: add_child_def Let_def)
  have f: "patterns (add_child node i m) = patterns m"
      "case_sensitive (add_child node i m) = case_sensitive m"
    by (simp_all add: add_child_def Let_def)
  have old: "\<And>a. a < length ?h \<Longrightarrow>
      pattern_indices (heap (add_child node i m) ! a) = pattern_indices (?h ! a) \<and>
      failure_link (heap (add_child node i m) ! a) = failure_link (?h ! a) \<and>
      output_link (heap (add_child node i m) ! a) = output_link (?h ! a)"
    using assms by (auto simp: h' nth_append nth_list_update)
  have new: "\<And>a. length ?h \<le> a \<and> a < length (heap (add_child node i m)) \<Longrightarrow>
      pattern_indices (heap (add_child node i m) ! a) = [] \<and>
      failure_link (heap (add_child node i m) ! a) = None \<and>
      output_link (heap (add_child node i m) ! a) = None"
  proof -
    fix a assume "length ?h \<le> a \<and> a < length (heap (add_child node i m))"
    then have "a = length ?h" by (simp add: h')
    then show "pattern_indices (heap (add_child node i m) ! a) = [] \<and>
      failure_link (heap (add_child node i m) ! a) = None \<and>
      output_link (heap (add_child node i m) ! a) = None"
      by (simp add: h' nth_append new_TrieNode_def)
  qed
  have len: "length ?h \<le> length (heap (add_child node i m))" by (simp add: h')
  show ?thesis
    unfolding grows_def using f old new len by blast
qed

lemma grows_pats_ok:
  assumes "grows m m'" "pats_ok m W" "\<forall>a < length (heap m). W' a = W a"
  shows "pats_ok m' W'"
  unfolding pats_ok_def
proof (intro allI impI ballI)
  fix a i assume a: "a < length (heap m')" and i: "i \<in> set (pattern_indices (heap m' ! a))"
  have old: "a < length (heap m)"
  proof (rule ccontr)
    assume "\<not> a < length (heap m)"
    with growsD(7) [OF assms(1), of a] a have "pattern_indices (heap m' ! a) = []" by simp
    with i show False by simp
  qed
  with growsD(4) [OF assms(1), of a] i have "i \<in> set (pattern_indices (heap m ! a))" by simp
  with assms(2) old have "pattern_at m i (W a)" by (simp add: pats_ok_def)
  moreover have "patterns m' = patterns m" "case_sensitive m' = case_sensitive m"
    using growsD(2,3) [OF assms(1)] by simp_all
  ultimately show "pattern_at m' i (W' a)"
    using assms(3) old pattern_at_cong [of m' m i "W a"] by simp
qed

lemma grows_no_links:
  assumes "grows m m'" "no_links (heap m)"
  shows "no_links (heap m')"
  unfolding no_links_def
proof (intro allI impI)
  fix a assume a: "a < length (heap m')"
  show "failure_link (heap m' ! a) = None \<and> output_link (heap m' ! a) = None"
  proof (cases "a < length (heap m)")
    case True
    then show ?thesis
      using growsD(5,6) [OF assms(1) True] assms(2) by (simp add: no_links_def)
  next
    case False
    then show ?thesis using growsD(8,9) [OF assms(1), of a] a by simp
  qed
qed

lemma insert_chars_inv:
  assumes "insert_chars cs node m = Inr (node', m')" "trie_ok (heap m) W" "node < length (heap m)"
  shows "\<exists>W'. trie_ok (heap m') W' \<and> (\<forall>a < length (heap m). W' a = W a) \<and> grows m m' \<and>
           node' < length (heap m') \<and> W' node' = W node @ map idx_of cs \<and>
           (\<forall>c \<in> set cs. 0 \<le> char_to_index c)"
  using assms
proof (induction cs arbitrary: node m W)
  case Nil
  then show ?case by (auto simp: grows_refl)
next
  case (Cons c cs)
  let ?i = "idx_of c"
  from Cons.prems(1) have c: "0 \<le> char_to_index c"
    by (auto simp: Let_def split: if_splits)
  have i: "?i < ALPHABET_SIZE" by (rule idx_of_less)
  define m1 where "m1 = (if children (heap m ! node) ! ?i = None then add_child node ?i m else m)"
  define W1 where "W1 = (if children (heap m ! node) ! ?i = None then W(length (heap m) := W node @ [?i]) else W)"
  have ok1: "trie_ok (heap m1) W1"
    using Cons.prems(2,3) i by (simp add: m1_def W1_def trie_ok_add_child)
  have g1: "grows m m1"
    using Cons.prems(3) by (simp add: m1_def grows_add_child grows_refl)
  have W1: "\<forall>a < length (heap m). W1 a = W a"
    by (simp add: W1_def)
  have node1: "node < length (heap m1)"
    using growsD(1) [OF g1] Cons.prems(3) by simp
  from Cons.prems(1) c obtain child where
    child: "children (heap m1 ! node) ! ?i = Some child" and
    rec: "insert_chars cs child m1 = Inr (node', m')"
    by (auto simp: Let_def m1_def idx_of_def split: if_splits option.splits)
  from trie_okD(3) [OF ok1 node1 i child]
  have child1: "child < length (heap m1)" and Wc: "W1 child = W1 node @ [?i]" by auto
  from Cons.IH [OF rec ok1 child1] obtain W' where
    W': "trie_ok (heap m') W'" "\<forall>a < length (heap m1). W' a = W1 a" "grows m1 m'"
      "node' < length (heap m')" "W' node' = W1 child @ map idx_of cs"
      "\<forall>c \<in> set cs. 0 \<le> char_to_index c"
    by blast
  have "\<forall>a < length (heap m). W' a = W a"
    using W'(2) W1 growsD(1) [OF g1] by simp
  moreover have "W' node' = W node @ map idx_of (c # cs)"
    using W'(5) Wc W1 Cons.prems(3) by simp
  ultimately show ?case
    using W'(1,3,4,6) c grows_trans [OF g1 W'(3)] by auto
qed

lemma nth_list_update_if: "(xs[i := x]) ! j = (if i = j \<and> i < length xs then x else xs ! j)"
  by (cases "i < length xs") (auto simp: nth_list_update list_update_beyond)

lemma mark_end_fields:
  "patterns (mark_end node i m) = patterns m"
  "case_sensitive (mark_end node i m) = case_sensitive m"
  "length (heap (mark_end node i m)) = length (heap m)"
  by (simp_all add: mark_end_def Let_def)

lemma mark_end_nth:
  assumes "a < length (heap m)"
  shows "children (heap (mark_end node i m) ! a) = children (heap m ! a)"
    "depth (heap (mark_end node i m) ! a) = depth (heap m ! a)"
    "failure_link (heap (mark_end node i m) ! a) = failure_link (heap m ! a)"
    "output_link (heap (mark_end node i m) ! a) = output_link (heap m ! a)"
    "pattern_indices (heap (mark_end node i m) ! a) =
       (if a = node then pattern_indices (heap m ! a) @ [i] else pattern_indices (heap m ! a))"
  using assms by (auto simp: mark_end_def Let_def nth_list_update_if)

lemma mark_end_inv:
  assumes inv: "build_inv m W" and node: "node < length (heap m)" and pat: "pattern_at m i (W node)"
  shows "build_inv (mark_end node i m) W"
proof -
  have t: "trie_ok (heap (mark_end node i m)) W"
    using inv unfolding build_inv_def trie_ok_def
    by (simp add: mark_end_fields mark_end_nth) (simp add: mark_end_def Let_def)
  have p: "pats_ok (mark_end node i m) W"
    unfolding pats_ok_def
  proof (intro allI impI ballI)
    fix a j assume a: "a < length (heap (mark_end node i m))"
      and j: "j \<in> set (pattern_indices (heap (mark_end node i m) ! a))"
    from a have a': "a < length (heap m)" by (simp add: mark_end_fields)
    have "pattern_at m j (W a)"
    proof (cases "a = node \<and> j = i")
      case True
      then show ?thesis using pat by simp
    next
      case False
      with j a' have "j \<in> set (pattern_indices (heap m ! a))"
        by (auto simp: mark_end_nth split: if_splits)
      with inv a' show ?thesis by (simp add: build_inv_def pats_ok_def)
    qed
    then show "pattern_at (mark_end node i m) j (W a)"
      using pattern_at_cong [of "mark_end node i m" m j "W a"] by (simp add: mark_end_fields)
  qed
  have n: "no_links (heap (mark_end node i m))"
    using inv unfolding build_inv_def no_links_def
    by (simp add: mark_end_fields mark_end_nth)
  show ?thesis using t p n by (simp add: build_inv_def)
qed

lemma build_trie_loop_inv:
  assumes "build_trie_loop js m = Inr m'" "build_inv m W" "\<forall>i \<in> set js. i < length (patterns m)"
  shows "\<exists>W'. build_inv m' W' \<and> patterns m' = patterns m \<and> case_sensitive m' = case_sensitive m"
  using assms
proof (induction js arbitrary: m W)
  case Nil
  then show ?case by auto
next
  case (Cons i js)
  let ?pat = "clean_text m (patterns m ! i)"
  show ?case
  proof (cases "?pat = []")
    case True
    with Cons.prems have "build_trie_loop js m = Inr m'" by simp
    from Cons.IH [OF this Cons.prems(2)] Cons.prems(3) show ?thesis by simp
  next
    case False
    with Cons.prems(1) obtain node m1 where
      ins: "insert_chars ?pat 0 m = Inr (node, m1)" and
      rec: "build_trie_loop js (mark_end node i m1) = Inr m'"
      by (auto simp: Let_def split: sum.splits)
    have ok: "trie_ok (heap m) W" and root: "0 < length (heap m)" "W 0 = []"
      using Cons.prems(2) trie_ok_root [of "heap m" W] by (auto simp: build_inv_def)
    from insert_chars_inv [OF ins ok root(1)] obtain W1 where
      W1: "trie_ok (heap m1) W1" "\<forall>a < length (heap m). W1 a = W a" "grows m m1"
        "node < length (heap m1)" "W1 node = W 0 @ map idx_of ?pat"
        "\<forall>c \<in> set ?pat. 0 \<le> char_to_index c"
      by blast
    have f1: "patterns m1 = patterns m" "case_sensitive m1 = case_sensitive m"
      using growsD(2,3) [OF W1(3)] by auto
    have inv1: "build_inv m1 W1"
      using W1(1) grows_pats_ok [OF W1(3) _ W1(2)] grows_no_links [OF W1(3)] Cons.prems(2)
      by (simp add: build_inv_def)
    have "pattern_at m i (W1 node)"
      using False W1(5,6) root(2) Cons.prems(3) by (simp add: pattern_at_def)
    then have pat: "pattern_at m1 i (W1 node)"
      using pattern_at_cong [OF f1, of i "W1 node"] by simp
    have inv2: "build_inv (mark_end node i m1) W1"
      by (rule mark_end_inv [OF inv1 W1(4) pat])
    have "\<forall>j \<in> set js. j < length (patterns (mark_end node i m1))"
      using Cons.prems(3) f1 by (simp add: mark_end_fields)
    from Cons.IH [OF rec inv2 this] show ?thesis
      using f1 by (simp add: mark_end_fields)
  qed
qed

lemma build_trie_inv:
  assumes "build_trie (clear_trie (m\<lparr>patterns := pats\<rparr>)) = Inr m1"
  shows "\<exists>W. build_inv m1 W \<and> patterns m1 = pats \<and> case_sensitive m1 = case_sensitive m"
proof -
  let ?m0 = "clear_trie (m\<lparr>patterns := pats\<rparr>)"
  have f0: "heap ?m0 = [new_TrieNode]" "patterns ?m0 = pats" "case_sensitive ?m0 = case_sensitive m"
    by (simp_all add: clear_trie_def)
  have "build_inv ?m0 (\<lambda>_. [])"
    unfolding build_inv_def
    by (simp add: f0 trie_ok_new pats_ok_def no_links_def) (simp add: new_TrieNode_def)
  moreover have "build_trie_loop [0..<length (patterns ?m0)] ?m0 = Inr m1"
    using assms by (simp add: build_trie_def)
  ultimately show ?thesis
    using build_trie_loop_inv [of "[0..<length (patterns ?m0)]" ?m0 m1 "\<lambda>_. []"] f0 by simp
qed

lemma links_okD:
  assumes "links_ok h W" "a < length h"
  shows "failure_link (h ! a) = Some f \<Longrightarrow> f < length h \<and> suffix (W f) (W a) \<and> (a \<noteq> 0 \<longrightarrow> length (W f) < length (W a))"
    and "output_link (h ! a) = Some g \<Longrightarrow> g < length h \<and> suffix (W g) (W a) \<and> length (W g) < length (W a) \<and> pattern_indices (h ! g) \<noteq> []"
  using assms unfolding links_ok_def by blast+

lemma same_shape_refl: "same_shape h h"
  by (simp add: same_shape_def)

lemma same_shape_trans: "same_shape h h1 \<Longrightarrow> same_shape h1 h2 \<Longrightarrow> same_shape h h2"
  by (simp add: same_shape_def)

lemma same_shape_trie_ok: "same_shape h h' \<Longrightarrow> trie_ok h W \<Longrightarrow> trie_ok h' W"
  unfolding same_shape_def trie_ok_def by auto

lemma same_shape_queue_ok: "same_shape h h' \<Longrightarrow> queue_ok h q \<Longrightarrow> queue_ok h' q"
  by (simp add: same_shape_def queue_ok_def)

lemma no_links_links_ok: "no_links h \<Longrightarrow> links_ok h W"
  by (simp add: no_links_def links_ok_def)

lemma set_links_shape:
  "same_shape h (h[c := (h ! c)\<lparr>failure_link := x, output_link := y\<rparr>])"
  by (auto simp: same_shape_def nth_list_update_if)

lemma set_links_ok:
  assumes ok: "links_ok h W" and c: "c < length h"
    and x: "\<And>f. x = Some f \<Longrightarrow>
              f < length h \<and> suffix (W f) (W c) \<and> (c \<noteq> 0 \<longrightarrow> length (W f) < length (W c))"
    and y: "\<And>g. y = Some g \<Longrightarrow>
              g < length h \<and> suffix (W g) (W c) \<and> length (W g) < length (W c) \<and>
              pattern_indices (h ! g) \<noteq> []"
  shows "links_ok (h[c := (h ! c)\<lparr>failure_link := x, output_link := y\<rparr>]) W"
proof -
  let ?h = "h[c := (h ! c)\<lparr>failure_link := x, output_link := y\<rparr>]"
  have pi: "\<And>g. pattern_indices (?h ! g) = pattern_indices (h ! g)"
    by (simp add: nth_list_update_if)
  show ?thesis
    unfolding links_ok_def
  proof (intro allI impI conjI)
    fix a f assume a: "a < length ?h" and f: "failure_link (?h ! a) = Some f"
    show "f < length ?h" "suffix (W f) (W a)" "a \<noteq> 0 \<Longrightarrow> length (W f) < length (W a)"
      using a f x [of f] links_okD(1) [OF ok, of a f] c
      by (auto simp: nth_list_update_if split: if_splits)
  next
    fix a g assume a: "a < length ?h" and g: "output_link (?h ! a) = Some g"
    show "g < length ?h" "suffix (W g) (W a)" "length (W g) < length (W a)"
      "pattern_indices (?h ! g) \<noteq> []"
      unfolding pi
      using a g y [of g] links_okD(2) [OF ok, of a g] c
      by (auto simp: nth_list_update_if split: if_splits)
  qed
qed

lemma follow_failure_inv:
  assumes "follow_failure h p i = Some res"
  shows "trie_ok h W \<longrightarrow> links_ok h W \<longrightarrow>
         (p = None \<longrightarrow> res = Inl NullPointer) \<and>
         (\<forall>n r. p = Some n \<and> n < length h \<and> res = Inr r \<longrightarrow>
           r < length h \<and> suffix (W r) (W n) \<and> (r = 0 \<or> children (h ! r) ! i \<noteq> None))"
  using assms
proof (induction h p i res rule: follow_failure.raw_induct [rotated 1, consumes 1, case_names step])
  case (step ff h p i res)
  show ?case
  proof (intro impI conjI allI)
    assume "p = None"
    with step(2) show "res = Inl NullPointer" by simp
  next
    fix n r
    assume ok: "trie_ok h W" "links_ok h W" and pr: "p = Some n \<and> n < length h \<and> res = Inr r"
    then have p: "p = Some n" and n: "n < length h" and res: "res = Inr r" by auto
    have "r < length h \<and> suffix (W r) (W n) \<and> (r = 0 \<or> children (h ! r) ! i \<noteq> None)"
    proof (cases "n \<noteq> 0 \<and> children (h ! n) ! i = None")
      case True
      with step(2) p have rec: "ff h (failure_link (h ! n)) i = Some res" by simp
      note IH = step(1) [OF rec, THEN mp, THEN mp, OF ok]
      have none: "failure_link (h ! n) = None \<longrightarrow> res = Inl NullPointer"
        using IH by (rule conjunct1)
      have some: "\<forall>f r. failure_link (h ! n) = Some f \<and> f < length h \<and> res = Inr r \<longrightarrow>
           r < length h \<and> suffix (W r) (W f) \<and> (r = 0 \<or> children (h ! r) ! i \<noteq> None)"
        using IH by (rule conjunct2)
      from none res obtain f where f: "failure_link (h ! n) = Some f"
        by (cases "failure_link (h ! n)") auto
      from links_okD(1) [OF ok(2) n f] have f': "f < length h" "suffix (W f) (W n)" by auto
      from some f f'(1) res have
        "r < length h \<and> suffix (W r) (W f) \<and> (r = 0 \<or> children (h ! r) ! i \<noteq> None)" by blast
      with f'(2) show ?thesis using suffix_order.trans by blast
    next
      case False
      with step(2) p res have "r = n" by (auto split: if_splits)
      with False n show ?thesis by auto
    qed
    then show "r < length h" "suffix (W r) (W n)" "r = 0 \<or> children (h ! r) ! i \<noteq> None"
      by auto
  qed
qed

lemma follow_failureD:
  assumes "follow_failure h (Some n) i = Some (Inr r)" "trie_ok h W" "links_ok h W" "n < length h"
  shows "r < length h" "suffix (W r) (W n)" "r = 0 \<or> children (h ! r) ! i \<noteq> None"
proof -
  from follow_failure_inv [OF assms(1), of W, THEN mp, THEN mp, OF assms(2,3)]
  have "\<forall>n' r'. Some n = Some n' \<and> n' < length h \<and> (Inr r :: error + nat) = Inr r' \<longrightarrow>
           r' < length h \<and> suffix (W r') (W n') \<and> (r' = 0 \<or> children (h ! r') ! i \<noteq> None)"
    by (rule conjunct2)
  then have "Some n = Some n \<and> n < length h \<and> (Inr r :: error + nat) = Inr r \<longrightarrow>
           r < length h \<and> suffix (W r) (W n) \<and> (r = 0 \<or> children (h ! r) ! i \<noteq> None)"
    by blast
  with assms(4) show "r < length h" "suffix (W r) (W n)" "r = 0 \<or> children (h ! r) ! i \<noteq> None"
    by simp_all
qed

lemma set_links_root:
  assumes "c \<noteq> 0"
  shows "failure_link (h[c := (h ! c)\<lparr>failure_link := x, output_link := y\<rparr>] ! 0) = failure_link (h ! 0)"
  using assms by (simp add: nth_list_update_if)

lemma set_links_linked:
  assumes ok: "linked h W" and c: "c < length h" "c \<noteq> 0"
    and x: "\<And>f. x = Some f \<Longrightarrow>
              f < length h \<and> suffix (W f) (W c) \<and> (c \<noteq> 0 \<longrightarrow> length (W f) < length (W c))"
    and y: "\<And>g. y = Some g \<Longrightarrow>
              g < length h \<and> suffix (W g) (W c) \<and> length (W g) < length (W c) \<and>
              pattern_indices (h ! g) \<noteq> []"
  shows "linked (h[c := (h ! c)\<lparr>failure_link := x, output_link := y\<rparr>]) W"
  unfolding linked_def
proof (intro conjI)
  show "trie_ok (h[c := (h ! c)\<lparr>failure_link := x, output_link := y\<rparr>]) W"
    using ok same_shape_trie_ok [OF set_links_shape] by (simp add: linked_def)
  show "links_ok (h[c := (h ! c)\<lparr>failure_link := x, output_link := y\<rparr>]) W"
    using ok set_links_ok [OF _ c(1) x y] by (simp add: linked_def)
  show "failure_link (h[c := (h ! c)\<lparr>failure_link := x, output_link := y\<rparr>] ! 0) = Some 0"
    using ok set_links_root [OF c(2), where h = h and x = x and y = y] by (simp add: linked_def)
qed

lemma link_root_children_inv:
  assumes "link_root_children js q h = (q', h')" "linked h W" "queue_ok h q"
    "\<forall>i \<in> set js. i < ALPHABET_SIZE"
  shows "linked h' W \<and> queue_ok h' q' \<and> same_shape h h'"
  using assms
proof (induction js arbitrary: q h)
  case Nil
  then show ?case by (simp add: same_shape_refl)
next
  case (Cons i js)
  have ok: "trie_ok h W" "links_ok h W" and root: "0 < length h" "W 0 = []"
    using Cons.prems(2) trie_ok_root [of h W] by (auto simp: linked_def)
  have i: "i < ALPHABET_SIZE" using Cons.prems(4) by simp
  show ?case
  proof (cases "children (h ! 0) ! i")
    case None
    with Cons.prems have "link_root_children js q h = (q', h')" by simp
    from Cons.IH [OF this Cons.prems(2,3)] Cons.prems(4) show ?thesis by simp
  next
    case (Some child)
    let ?h1 = "h[child := (h ! child)\<lparr>failure_link := Some 0\<rparr>]"
    from trie_okD(3) [OF ok(1) root(1) i Some] root(2)
    have child: "child < length h" "W child = [i]" by auto
    have child0: "child \<noteq> 0" by (rule trie_ok_child_nonroot [OF ok(1) root(1) i Some])
    have eq: "?h1 = h[child := (h ! child)\<lparr>failure_link := Some 0, output_link := output_link (h ! child)\<rparr>]"
      by simp
    have l1: "linked ?h1 W"
      unfolding eq
    proof (rule set_links_linked [OF Cons.prems(2) child(1) child0])
      fix f :: nat assume "Some 0 = Some f"
      then show "f < length h \<and> suffix (W f) (W child) \<and> (child \<noteq> 0 \<longrightarrow> length (W f) < length (W child))"
        using root child by auto
    next
      fix g assume "output_link (h ! child) = Some g"
      from links_okD(2) [OF ok(2) child(1) this]
      show "g < length h \<and> suffix (W g) (W child) \<and> length (W g) < length (W child) \<and>
              pattern_indices (h ! g) \<noteq> []" .
    qed
    have s1: "same_shape h ?h1" unfolding eq by (rule set_links_shape)
    have q1: "queue_ok ?h1 (q @ [child])"
      using Cons.prems(3) child(1) child0 by (simp add: queue_ok_def)
    from Cons.prems(1) Some have "link_root_children js (q @ [child]) ?h1 = (q', h')" by simp
    from Cons.IH [OF this l1 q1] Cons.prems(4) s1 show ?thesis
      using same_shape_trans by auto
  qed
qed

lemma link_children_inv:
  assumes "link_children js cur q h = Some (Inr (q', h'))" "linked h W" "queue_ok h q"
    "\<forall>i \<in> set js. i < ALPHABET_SIZE" "cur < length h" "cur \<noteq> 0"
  shows "linked h' W \<and> queue_ok h' q' \<and> same_shape h h'"
  using assms
proof (induction js arbitrary: q h)
  case Nil
  then show ?case by (simp add: same_shape_refl)
next
  case (Cons i js)
  have ok: "trie_ok h W" "links_ok h W" and root: "0 < length h" "W 0 = []"
    using Cons.prems(2) trie_ok_root [of h W] by (auto simp: linked_def)
  have i: "i < ALPHABET_SIZE" using Cons.prems(4) by simp
  note cur = Cons.prems(5,6)
  show ?case
  proof (cases "children (h ! cur) ! i")
    case None
    with Cons.prems have "link_children js cur q h = Some (Inr (q', h'))" by simp
    from Cons.IH [OF this Cons.prems(2,3) _ cur] Cons.prems(4) show ?thesis by simp
  next
    case (Some child)
    from Cons.prems(1) Some obtain failure where
      ff: "follow_failure h (failure_link (h ! cur)) i = Some (Inr failure)"
      by (auto split: option.splits sum.splits)
    define fl where "fl = (case children (h ! failure) ! i of Some g \<Rightarrow> g | None \<Rightarrow> 0)"
    define h1 where "h1 = h[child := (h ! child)\<lparr>failure_link := Some fl\<rparr>]"
    define ol where "ol = (if pattern_indices (h1 ! fl) = [] then output_link (h1 ! fl) else Some fl)"
    define h2 where "h2 = h1[child := (h1 ! child)\<lparr>output_link := ol\<rparr>]"
    from Cons.prems(1) Some ff have rec: "link_children js cur (q @ [child]) h2 = Some (Inr (q', h'))"
      unfolding h2_def ol_def h1_def fl_def by (simp add: Let_def split del: if_split)
    from trie_okD(3) [OF ok(1) cur(1) i Some]
    have child: "child < length h" "W child = W cur @ [i]" by auto
    have child0: "child \<noteq> 0" by (rule trie_ok_child_nonroot [OF ok(1) cur(1) i Some])
    obtain f1 where f1: "failure_link (h ! cur) = Some f1"
      using follow_failure_inv [OF ff, of W] ok by (cases "failure_link (h ! cur)") auto
    from links_okD(1) [OF ok(2) cur(1) f1] cur(2)
    have f1': "f1 < length h" "suffix (W f1) (W cur)" "length (W f1) < length (W cur)" by auto
    from follow_failureD [OF ff [unfolded f1] ok f1'(1)]
    have fail: "failure < length h" "suffix (W failure) (W f1)" by auto
    have fail_suffix: "suffix (W failure) (W cur)"
      using fail(2) f1'(2) suffix_order.trans by blast
    have fail_len: "length (W failure) < length (W cur)"
      using suffix_length_le [OF fail(2)] f1'(3) by simp
    have fl: "fl < length h \<and> suffix (W fl) (W child) \<and> length (W fl) < length (W child)"
    proof (cases "children (h ! failure) ! i")
      case None
      then show ?thesis using root child by (simp add: fl_def)
    next
      case (Some g)
      from trie_okD(3) [OF ok(1) fail(1) i Some]
      have "g < length h" "W g = W failure @ [i]" by auto
      then show ?thesis
        using Some fail_suffix fail_len child by (simp add: fl_def)
    qed
    then have fl_child: "fl \<noteq> child" by auto
    have h1_fl: "h1 ! fl = h ! fl" using fl_child by (simp add: h1_def)
    have h2_eq: "h2 = h[child := (h ! child)\<lparr>failure_link := Some fl, output_link := ol\<rparr>]"
      using child(1) by (simp add: h2_def h1_def)
    have l2: "linked h2 W"
      unfolding h2_eq
    proof (rule set_links_linked [OF Cons.prems(2) child(1) child0])
      fix f assume "Some fl = Some f"
      then show "f < length h \<and> suffix (W f) (W child) \<and> (child \<noteq> 0 \<longrightarrow> length (W f) < length (W child))"
        using fl by auto
    next
      fix g assume g: "ol = Some g"
      show "g < length h \<and> suffix (W g) (W child) \<and> length (W g) < length (W child) \<and>
              pattern_indices (h ! g) \<noteq> []"
      proof (cases "pattern_indices (h ! fl) = []")
        case True
        with g have "output_link (h ! fl) = Some g" by (simp add: ol_def h1_fl)
        from links_okD(2) [OF ok(2) _ this] fl
        have "g < length h" "suffix (W g) (W fl)" "length (W g) < length (W fl)"
          "pattern_indices (h ! g) \<noteq> []" by auto
        then show ?thesis using fl suffix_order.trans by fastforce
      next
        case False
        with g have "g = fl" by (simp add: ol_def h1_fl)
        then show ?thesis using fl False by simp
      qed
    qed
    have s2: "same_shape h h2" unfolding h2_eq by (rule set_links_shape)
    have q2: "queue_ok h2 (q @ [child])"
      using Cons.prems(3) child(1) child0 by (simp add: queue_ok_def h2_eq)
    have cur2: "cur < length h2" using cur(1) by (simp add: h2_eq)
    from Cons.IH [OF rec l2 q2 _ cur2 cur(2)] Cons.prems(4) s2 show ?thesis
      using same_shape_trans by auto
  qed
qed

lemma bfs_loop_inv:
  assumes "bfs_loop q h = Some res"
  shows "linked h W \<longrightarrow> queue_ok h q \<longrightarrow> (\<forall>h'. res = Inr h' \<longrightarrow> linked h' W \<and> same_shape h h')"
  using assms
proof (induction q h res rule: bfs_loop.raw_induct [rotated 1, consumes 1, case_names step])
  case (step bfs q h res)
  show ?case
  proof (intro impI allI)
    fix h' assume l: "linked h W" and q: "queue_ok h q" and res: "res = Inr h'"
    show "linked h' W \<and> same_shape h h'"
    proof (cases q)
      case Nil
      with step(2) res show ?thesis using l by (simp add: same_shape_refl)
    next
      case (Cons cur rest)
      with step(2) res obtain q1 h1 where
        lc: "link_children [0..<ALPHABET_SIZE] cur rest h = Some (Inr (q1, h1))" and
        rec: "bfs q1 h1 = Some res"
        by (auto split: option.splits sum.splits)
      have cur: "cur < length h" "cur \<noteq> 0" and rest: "queue_ok h rest"
        using q Cons by (auto simp: queue_ok_def)
      from link_children_inv [OF lc l rest _ cur]
      have 1: "linked h1 W" "queue_ok h1 q1" "same_shape h h1" by auto
      from step(1) [OF rec, THEN mp, THEN mp, OF 1(1,2)] res
      have "linked h' W \<and> same_shape h1 h'" by blast
      with 1(3) show ?thesis using same_shape_trans by blast
    qed
  qed
qed

lemma same_shape_pats_ok:
  assumes "same_shape (heap m) (heap m')" "patterns m' = patterns m" "case_sensitive m' = case_sensitive m"
    "pats_ok m W"
  shows "pats_ok m' W"
  unfolding pats_ok_def
proof (intro allI impI ballI)
  fix a i assume a: "a < length (heap m')" and i: "i \<in> set (pattern_indices (heap m' ! a))"
  from a assms(1) have a': "a < length (heap m)" by (simp add: same_shape_def)
  with i assms(1) have "i \<in> set (pattern_indices (heap m ! a))" by (simp add: same_shape_def)
  with assms(4) a' have "pattern_at m i (W a)" by (simp add: pats_ok_def)
  then show "pattern_at m' i (W a)"
    using pattern_at_cong [OF assms(2,3), of i "W a"] by simp
qed

lemma build_failure_links_inv:
  assumes "build_failure_links m1 = Some (Inr m2)" "build_inv m1 W"
  shows "ready m2 W \<and> patterns m2 = patterns m1 \<and> case_sensitive m2 = case_sensitive m1 \<and>
         same_shape (heap m1) (heap m2)"
proof -
  let ?h = "heap m1"
  let ?hr = "?h[0 := (?h ! 0)\<lparr>failure_link := Some 0\<rparr>]"
  obtain q h1 where lr: "link_root_children [0..<ALPHABET_SIZE] [] ?hr = (q, h1)"
    by (cases "link_root_children [0..<ALPHABET_SIZE] [] ?hr") auto
  from assms(1) lr obtain h2 where
    bfs: "bfs_loop q h1 = Some (Inr h2)" and m2: "m2 = m1\<lparr>heap := h2\<rparr>"
    by (auto simp: build_failure_links_def Let_def split: option.splits sum.splits)
  have ok: "trie_ok ?h W" "pats_ok m1 W" "no_links ?h"
    using assms(2) by (auto simp: build_inv_def)
  have root: "0 < length ?h" "W 0 = []" using trie_ok_root [OF ok(1)] by auto
  have none: "output_link (?h ! 0) = None" using ok(3) root(1) by (simp add: no_links_def)
  have eq: "?hr = ?h[0 := (?h ! 0)\<lparr>failure_link := Some 0, output_link := None\<rparr>]"
    using none by (metis TrieNode.surjective TrieNode.update_convs(3,4))
  have l0: "linked ?hr W"
    unfolding linked_def
  proof (intro conjI)
    show "trie_ok ?hr W"
      unfolding eq using same_shape_trie_ok [OF set_links_shape ok(1)] .
    show "links_ok ?hr W"
      unfolding eq
    proof (rule set_links_ok [OF no_links_links_ok [OF ok(3)] root(1)])
      fix f :: nat assume "Some 0 = Some f"
      then show "f < length ?h \<and> suffix (W f) (W 0) \<and> (0 \<noteq> (0::nat) \<longrightarrow> length (W f) < length (W 0))"
        using root by auto
    next
      fix g :: nat assume "None = Some g"
      then show "g < length ?h \<and> suffix (W g) (W 0) \<and> length (W g) < length (W 0) \<and>
              pattern_indices (?h ! g) \<noteq> []" by simp
    qed
    show "failure_link (?hr ! 0) = Some 0" using root(1) by simp
  qed
  have s0: "same_shape ?h ?hr" unfolding eq by (rule set_links_shape)
  have q0: "queue_ok ?hr []" by (simp add: queue_ok_def)
  from link_root_children_inv [OF lr l0 q0]
  have 1: "linked h1 W" "queue_ok h1 q" "same_shape ?hr h1" by auto
  from bfs_loop_inv [OF bfs, of W, THEN mp, THEN mp, OF 1(1,2)]
  have 2: "linked h2 W" "same_shape h1 h2" by auto
  have s: "same_shape ?h h2"
    using s0 1(3) 2(2) same_shape_trans by blast
  have f: "patterns m2 = patterns m1" "case_sensitive m2 = case_sensitive m1" "heap m2 = h2"
    by (simp_all add: m2)
  have "pats_ok m2 W"
    using same_shape_pats_ok [OF _ f(1,2) ok(2)] s f(3) by simp
  then show ?thesis using 2(1) s f by (simp add: ready_def)
qed

lemma initialize_ready:
  assumes "initialize pats m = Some (Ok m2)"
  shows "\<exists>W. ready m2 W \<and> patterns m2 = pats \<and> case_sensitive m2 = case_sensitive m \<and> pats \<noteq> []"
proof -
  from assms have ne: "pats \<noteq> []"
    by (auto simp: initialize_def split: if_splits)
  with assms obtain m1 where
    bt: "build_trie (clear_trie (m\<lparr>patterns := pats\<rparr>)) = Inr m1" and
    bf: "build_failure_links m1 = Some (Inr m2)"
    by (auto simp: initialize_def split: sum.splits option.splits)
  from build_trie_inv [OF bt] obtain W where
    W: "build_inv m1 W" "patterns m1 = pats" "case_sensitive m1 = case_sensitive m" by blast
  from build_failure_links_inv [OF bf W(1)] W(2,3) ne show ?thesis by auto
qed

lemma unat_str_length_le: "unat (str_length s) \<le> length s"
  by (simp add: str_length_def unat_of_nat)

lemma context_start_le: "context_start pos plen llen \<le> llen"
  by (simp add: context_start_def)

lemma context_end_le: "context_end pos ctx llen \<le> llen"
  by (simp add: context_end_def)

lemma context_start_in_range: "unat (context_start pos plen (str_length s)) \<le> length s"
  using context_start_le [of pos plen "str_length s"] unat_str_length_le [of s]
  by (simp add: word_le_nat_alt)

lemma substr_context:
  "substr s (context_start pos plen (str_length s)) n =
     Inr (take (unat n) (drop (unat (context_start pos plen (str_length s))) s))"
  using context_start_in_range [of pos plen s] by (simp add: substr_def)

lemma make_match_eq:
  "make_match m pid ln col lt pos ctx =
     (if length (patterns m) \<le> pid then Inl BadIndex else Inr (the_match m pid ln col lt pos ctx))"
  by (simp add: make_match_def the_match_def Let_def substr_context)

lemma collect_node_eq:
  "collect_node m ids acc ln col lt pos ctx =
     (if \<forall>pid \<in> set ids. pid < length (patterns m)
      then Inr (acc @ map (\<lambda>pid. the_match m pid ln col lt pos ctx) ids)
      else Inl BadIndex)"
proof (induction ids arbitrary: acc)
  case Nil
  then show ?case by simp
next
  case (Cons pid ids)
  show ?case
  proof (cases "pid < length (patterns m)")
    case True
    then show ?thesis by (simp add: make_match_eq Cons.IH)
  next
    case False
    then show ?thesis by (auto simp: make_match_eq)
  qed
qed

lemma collect_matches_shape:
  assumes "collect_matches m temp acc ln col lt pos ctx = Some res"
  shows "\<forall>ms. res = Inr ms \<longrightarrow>
           (\<exists>new. ms = acc @ new \<and> (\<forall>r \<in> set new. emitted m temp ln col lt pos ctx r))"
  using assms
proof (induction m temp acc ln col lt pos ctx res
    rule: collect_matches.raw_induct [rotated 1, consumes 1, case_names step])
  case (step cm m temp acc ln col lt pos ctx res)
  show ?case
  proof (intro allI impI)
    fix ms assume res: "res = Inr ms"
    show "\<exists>new. ms = acc @ new \<and> (\<forall>r \<in> set new. emitted m temp ln col lt pos ctx r)"
    proof (cases temp)
      case None
      with step(2) res show ?thesis by simp
    next
      case (Some t)
      let ?ids = "pattern_indices (heap m ! t)"
      let ?here = "map (\<lambda>pid. the_match m pid ln col lt pos ctx) ?ids"
      from step(2) Some res have valid: "\<forall>pid \<in> set ?ids. pid < length (patterns m)"
        by (auto simp: collect_node_eq split: if_splits)
      with step(2) Some have rec: "cm m (output_link (heap m ! t)) (acc @ ?here) ln col lt pos ctx = Some res"
        by (simp add: collect_node_eq)
      from step(1) [OF rec] res obtain new where
        new: "ms = (acc @ ?here) @ new"
          "\<forall>r \<in> set new. emitted m (output_link (heap m ! t)) ln col lt pos ctx r"
        by blast
      have "\<forall>r \<in> set (?here @ new). emitted m temp ln col lt pos ctx r"
      proof
        fix r assume "r \<in> set (?here @ new)"
        then consider "r \<in> set ?here" | "r \<in> set new" by auto
        then show "emitted m temp ln col lt pos ctx r"
        proof cases
          case 1
          then show ?thesis
            using valid Some in_chain.chain_here [of m t] unfolding emitted_def by auto
        next
          case 2
          with new(2) obtain t' pid where
            "in_chain m (output_link (heap m ! t)) t'" "pid \<in> set (pattern_indices (heap m ! t'))"
            "pid < length (patterns m)" "r = the_match m pid ln col lt pos ctx"
            unfolding emitted_def by blast
          then show ?thesis
            using Some in_chain.chain_next [of m t t'] unfolding emitted_def by blast
        qed
      qed
      with new(1) show ?thesis by auto
    qed
  qed
qed

lemma index_map: "\<forall>c \<in> set s. 0 \<le> char_to_index c \<Longrightarrow> map char_to_index s = map int (map idx_of s)"
  by (induction s) (auto simp: idx_of_def)

lemma in_chain_ready:
  assumes "in_chain m p t'" "ready m W"
  shows "\<forall>t. p = Some t \<and> t < length (heap m) \<longrightarrow> t' < length (heap m) \<and> suffix (W t') (W t)"
  using assms(1)
proof (induction rule: in_chain.induct)
  case (chain_here t)
  then show ?case by simp
next
  case (chain_next t t')
  show ?case
  proof (intro allI impI)
    fix s assume s: "Some t = Some s \<and> s < length (heap m)"
    then have t: "t < length (heap m)" by simp
    from chain_next(1) obtain g where g: "output_link (heap m ! t) = Some g"
      by (cases rule: in_chain.cases) auto
    have lk: "links_ok (heap m) W" using assms(2) by (simp add: ready_def linked_def)
    from links_okD(2) [OF lk t g] have g': "g < length (heap m)" "suffix (W g) (W t)" by auto
    from chain_next(2) g g'(1) have "t' < length (heap m) \<and> suffix (W t') (W g)" by simp
    with g'(2) s show "t' < length (heap m) \<and> suffix (W t') (W s)"
      using suffix_order.trans by auto
  qed
qed

lemma emitted_sound:
  assumes "emitted m (Some node) ln c lt p ctx r" "ready m W" "node < length (heap m)"
    "suffix (W node) (map idx_of s)" "\<forall>c \<in> set s. 0 \<le> char_to_index c"
  shows "\<exists>pid. pid < length (patterns m) \<and> r = the_match m pid ln c lt p ctx \<and> pattern_ends m pid s"
proof -
  from assms(1) obtain t pid where
    t: "in_chain m (Some node) t" "pid \<in> set (pattern_indices (heap m ! t))"
      "pid < length (patterns m)" "r = the_match m pid ln c lt p ctx"
    unfolding emitted_def by blast
  from in_chain_ready [OF t(1) assms(2)] assms(3)
  have t': "t < length (heap m)" "suffix (W t) (W node)" by auto
  have "pats_ok m W" using assms(2) by (simp add: ready_def)
  with t'(1) t(2) have pa: "pattern_at m pid (W t)" unfolding pats_ok_def by blast
  let ?np = "clean_text m (patterns m ! pid)"
  from pa have np: "?np \<noteq> []" "\<forall>c \<in> set ?np. 0 \<le> char_to_index c" "map idx_of ?np = W t"
    by (simp_all add: pattern_at_def)
  have "suffix (map idx_of ?np) (map idx_of s)"
    using np(3) t'(2) assms(4) suffix_order.trans by fastforce
  then have "suffix (map int (map idx_of ?np)) (map int (map idx_of s))"
    by (rule map_mono_suffix)
  then have "suffix (map char_to_index ?np) (map char_to_index s)"
    by (simp only: index_map [OF np(2)] index_map [OF assms(5)])
  with np(1) t(3,4) show ?thesis unfolding pattern_ends_def by blast
qed

lemma drop_Cons_facts:
  assumes "drop col lt = c # cs"
  shows "col < length lt" "lt ! col = c" "drop (Suc col) lt = cs" "take (Suc col) lt = take col lt @ [c]"
proof -
  show col: "col < length lt" using assms by (cases "col < length lt") auto
  show c: "lt ! col = c" using assms col by (metis Cons_nth_drop_Suc list.inject)
  show "drop (Suc col) lt = cs" using assms col by (metis Cons_nth_drop_Suc list.inject)
  show "take (Suc col) lt = take col lt @ [c]" using col c by (simp add: take_Suc_conv_app_nth)
qed

lemma step_pre:
  assumes pre: "scan_pre m W lt col cur" and d: "drop col lt = c # cs"
    and ff: "follow_failure (heap m) (Some cur) (idx_of c) = Some (Inr n)"
  shows "scan_pre m W lt (Suc col)
           (case children (heap m ! n) ! idx_of c of Some child \<Rightarrow> child | None \<Rightarrow> n)"
proof -
  let ?h = "heap m"
  have rd: "ready m W" and cur: "cur < length ?h"
    and sf: "suffix (W cur) (map idx_of (take col lt))"
    and chars: "\<forall>c \<in> set lt. 0 \<le> char_to_index c"
    using pre by (auto simp: scan_pre_def)
  have ok: "trie_ok ?h W" "links_ok ?h W" using rd by (auto simp: ready_def linked_def)
  from follow_failureD [OF ff ok cur]
  have n: "n < length ?h" "suffix (W n) (W cur)" "n = 0 \<or> children (?h ! n) ! idx_of c \<noteq> None"
    by auto
  have tk: "take (Suc col) lt = take col lt @ [c]" by (rule drop_Cons_facts(4) [OF d])
  have i: "idx_of c < ALPHABET_SIZE" by (rule idx_of_less)
  have "(case children (?h ! n) ! idx_of c of Some child \<Rightarrow> child | None \<Rightarrow> n) < length ?h \<and>
        suffix (W (case children (?h ! n) ! idx_of c of Some child \<Rightarrow> child | None \<Rightarrow> n))
          (map idx_of (take (Suc col) lt))"
  proof (cases "children (?h ! n) ! idx_of c")
    case None
    with n(3) have "n = 0" by simp
    then show ?thesis using None n(1) trie_ok_root [OF ok(1)] by simp
  next
    case (Some child)
    from trie_okD(3) [OF ok(1) n(1) i Some]
    have child: "child < length ?h" "W child = W n @ [idx_of c]" by auto
    have "suffix (W n) (map idx_of (take col lt))"
      using n(2) sf suffix_order.trans by blast
    then have "suffix (W n @ [idx_of c]) (map idx_of (take col lt) @ [idx_of c])" by simp
    then show ?thesis using Some child by (simp add: tk)
  qed
  then show ?thesis using rd chars by (simp add: scan_pre_def)
qed

lemma found_weaken: "found m ctx k lt Q r \<Longrightarrow> (P \<Longrightarrow> Q) \<Longrightarrow> found m ctx k lt P r"
  unfolding found_def by blast

lemma foundI:
  "match_at m ctx k lt pos pid r \<Longrightarrow> (P \<Longrightarrow> pattern_ends m pid (take (Suc pos) lt)) \<Longrightarrow>
   found m ctx k lt P r"
  unfolding found_def by blast

lemma scan_line_gen:
  assumes "scan_line m k lt ctx cs col cur acc = Some (Inr ms)" "drop col lt = cs"
  shows "\<exists>new. ms = acc @ new \<and> (\<forall>r \<in> set new. found m ctx k lt (scan_pre m W lt col cur) r)"
  using assms
proof (induction cs arbitrary: col cur acc)
  case Nil
  then show ?case by simp
next
  case (Cons c cs)
  note d = drop_Cons_facts [OF Cons.prems(2)]
  show ?case
  proof (cases "char_to_index c = - 1")
    case True
    with Cons.prems(1) have rec: "scan_line m k lt ctx cs (Suc col) cur acc = Some (Inr ms)"
      by simp
    from Cons.IH [OF rec d(3)] obtain new where
      new: "ms = acc @ new" "\<forall>r \<in> set new. found m ctx k lt (scan_pre m W lt (Suc col) cur) r"
      by blast
    have no: "\<not> scan_pre m W lt col cur"
    proof
      assume "scan_pre m W lt col cur"
      then have "\<forall>c \<in> set lt. 0 \<le> char_to_index c" by (simp add: scan_pre_def)
      moreover have "c \<in> set lt" using d(1,2) nth_mem by blast
      ultimately show False using True by auto
    qed
    have "\<forall>r \<in> set new. found m ctx k lt (scan_pre m W lt col cur) r"
    proof
      fix r assume "r \<in> set new"
      with new(2) have "found m ctx k lt (scan_pre m W lt (Suc col) cur) r" by blast
      then show "found m ctx k lt (scan_pre m W lt col cur) r"
        by (rule found_weaken) (use no in simp)
    qed
    with new(1) show ?thesis by blast
  next
    case False
    let ?i = "idx_of c"
    from False Cons.prems(1) obtain n where
      ff: "follow_failure (heap m) (Some cur) ?i = Some (Inr n)"
      by (auto simp: Let_def idx_of_def split: option.splits sum.splits)
    define node where "node = (case children (heap m ! n) ! ?i of Some child \<Rightarrow> child | None \<Rightarrow> n)"
    have pre': "scan_pre m W lt col cur \<Longrightarrow> scan_pre m W lt (Suc col) node"
      unfolding node_def by (rule step_pre [OF _ Cons.prems(2) ff])
    from False Cons.prems(1) ff have body:
      "(if pattern_indices (heap m ! node) \<noteq> [] then
          case collect_matches m (Some node) acc (of_nat k + 1) (of_nat col + 1) lt (of_nat col) ctx of
            None \<Rightarrow> None
          | Some (Inl e) \<Rightarrow> Some (Inl e)
          | Some (Inr matches') \<Rightarrow> scan_line m k lt ctx cs (Suc col) node matches'
        else scan_line m k lt ctx cs (Suc col) node acc) = Some (Inr ms)"
      unfolding node_def idx_of_def Suc_eq_plus1
      by (simp only: scan_line.simps Let_def if_False option.case sum.case)
    show ?thesis
    proof (cases "pattern_indices (heap m ! node) = []")
      case True
      with body have rec: "scan_line m k lt ctx cs (Suc col) node acc = Some (Inr ms)"
        by simp
      from Cons.IH [OF rec d(3)] obtain new where
        new: "ms = acc @ new" "\<forall>r \<in> set new. found m ctx k lt (scan_pre m W lt (Suc col) node) r"
        by blast
      have "\<forall>r \<in> set new. found m ctx k lt (scan_pre m W lt col cur) r"
      proof
        fix r assume "r \<in> set new"
        with new(2) have "found m ctx k lt (scan_pre m W lt (Suc col) node) r" by blast
        then show "found m ctx k lt (scan_pre m W lt col cur) r"
          by (rule found_weaken) (rule pre')
      qed
      with new(1) show ?thesis by blast
    next
      case ne: False
      with body obtain acc' where
        cm: "collect_matches m (Some node) acc (of_nat k + 1) (of_nat col + 1) lt (of_nat col) ctx
               = Some (Inr acc')" and
        rec: "scan_line m k lt ctx cs (Suc col) node acc' = Some (Inr ms)"
        by (simp split: option.splits sum.splits)
      from collect_matches_shape [OF cm] obtain new1 where
        new1: "acc' = acc @ new1"
          "\<forall>r \<in> set new1. emitted m (Some node) (of_nat k + 1) (of_nat col + 1) lt (of_nat col) ctx r"
        by blast
      from Cons.IH [OF rec d(3)] obtain new2 where
        new2: "ms = acc' @ new2" "\<forall>r \<in> set new2. found m ctx k lt (scan_pre m W lt (Suc col) node) r"
        by blast
      have "\<forall>r \<in> set (new1 @ new2). found m ctx k lt (scan_pre m W lt col cur) r"
      proof
        fix r assume "r \<in> set (new1 @ new2)"
        then consider "r \<in> set new1" | "r \<in> set new2" by auto
        then show "found m ctx k lt (scan_pre m W lt col cur) r"
        proof cases
          case 1
          with new1(2) have em: "emitted m (Some node) (of_nat k + 1) (of_nat col + 1) lt (of_nat col) ctx r"
            by blast
          show ?thesis
          proof (cases "scan_pre m W lt col cur")
            case True
            from pre' [OF True] have p: "ready m W" "node < length (heap m)"
              "suffix (W node) (map idx_of (take (Suc col) lt))"
              "\<forall>c \<in> set (take (Suc col) lt). 0 \<le> char_to_index c"
              by (auto simp: scan_pre_def dest: in_set_takeD)
            from emitted_sound [OF em p] obtain pid where
              pid: "pid < length (patterns m)"
              "r = the_match m pid (of_nat k + 1) (of_nat col + 1) lt (of_nat col) ctx"
              "pattern_ends m pid (take (Suc col) lt)" by blast
            have "match_at m ctx k lt col pid r" using pid(1,2) d(1) by (simp add: match_at_def)
            then show ?thesis by (rule foundI) (rule pid(3))
          next
            case False
            from em obtain pid where pid: "pid < length (patterns m)"
              "r = the_match m pid (of_nat k + 1) (of_nat col + 1) lt (of_nat col) ctx"
              unfolding emitted_def by blast
            have "match_at m ctx k lt col pid r" using pid d(1) by (simp add: match_at_def)
            then show ?thesis by (rule foundI) (use False in simp)
          qed
        next
          case 2
          with new2(2) have "found m ctx k lt (scan_pre m W lt (Suc col) node) r" by blast
          then show ?thesis by (rule found_weaken) (rule pre')
        qed
      qed
      with new1(1) new2(1) show ?thesis by auto
    qed
  qed
qed

lemma scan_pre_start:
  assumes "ready m W" "\<forall>c \<in> set l. 0 \<le> char_to_index c"
  shows "scan_pre m W l 0 0"
proof -
  have "trie_ok (heap m) W" using assms(1) by (simp add: ready_def linked_def)
  from trie_ok_root [OF this] show ?thesis using assms by (simp add: scan_pre_def)
qed

lemma scan_lines_gen:
  assumes "scan_lines m ctx ls n acc = Some (Inr ms)"
  shows "\<exists>new. ms = acc @ new \<and>
           (\<forall>r \<in> set new. \<exists>k < length ls.
              found m ctx (n + k) (ls ! k) (ready m W \<and> (\<forall>c \<in> set (ls ! k). 0 \<le> char_to_index c)) r)"
  using assms
proof (induction ls arbitrary: n acc)
  case Nil
  then show ?case by simp
next
  case (Cons l ls)
  from Cons.prems obtain acc' where
    sl: "scan_line m n l ctx l 0 0 acc = Some (Inr acc')" and
    rec: "scan_lines m ctx ls (Suc n) acc' = Some (Inr ms)"
    by (auto split: option.splits sum.splits)
  from scan_line_gen [OF sl, of W] obtain new1 where
    new1: "acc' = acc @ new1" "\<forall>r \<in> set new1. found m ctx n l (scan_pre m W l 0 0) r"
    by auto
  from Cons.IH [OF rec] obtain new2 where
    new2: "ms = acc' @ new2"
      "\<forall>r \<in> set new2. \<exists>k < length ls.
          found m ctx (Suc n + k) (ls ! k) (ready m W \<and> (\<forall>c \<in> set (ls ! k). 0 \<le> char_to_index c)) r"
    by blast
  have "\<forall>r \<in> set (new1 @ new2). \<exists>k < length (l # ls).
          found m ctx (n + k) ((l # ls) ! k)
            (ready m W \<and> (\<forall>c \<in> set ((l # ls) ! k). 0 \<le> char_to_index c)) r"
  proof
    fix r assume "r \<in> set (new1 @ new2)"
    then consider "r \<in> set new1" | "r \<in> set new2" by auto
    then show "\<exists>k < length (l # ls).
          found m ctx (n + k) ((l # ls) ! k)
            (ready m W \<and> (\<forall>c \<in> set ((l # ls) ! k). 0 \<le> char_to_index c)) r"
    proof cases
      case 1
      with new1(2) have "found m ctx n l (scan_pre m W l 0 0) r" by blast
      then have "found m ctx n l (ready m W \<and> (\<forall>c \<in> set l. 0 \<le> char_to_index c)) r"
        by (rule found_weaken) (simp add: scan_pre_start)
      then have "found m ctx (n + 0) ((l # ls) ! 0)
            (ready m W \<and> (\<forall>c \<in> set ((l # ls) ! 0). 0 \<le> char_to_index c)) r" by simp
      then show ?thesis by (intro exI [of _ 0]) simp
    next
      case 2
      with new2(2) obtain k where k: "k < length ls"
        "found m ctx (Suc n + k) (ls ! k) (ready m W \<and> (\<forall>c \<in> set (ls ! k). 0 \<le> char_to_index c)) r"
        by blast
      then have "found m ctx (n + Suc k) ((l # ls) ! Suc k)
            (ready m W \<and> (\<forall>c \<in> set ((l # ls) ! Suc k). 0 \<le> char_to_index c)) r" by simp
      with k(1) show ?thesis by (intro exI [of _ "Suc k"]) simp
    qed
  qed
  with new1(1) new2(1) show ?case by auto
qed

lemma set_std_sort: "set (std_sort ms) = set ms"
  by (simp add: std_sort_def)

lemma search_Inr:
  assumes "search m text ctx = Some (Inr ms)"
  obtains raw where "collect_all m text ctx = Some (Inr raw)" "ms = std_sort raw"
  using assms by (auto simp: search_def split: option.splits sum.splits)

lemma search_records:
  assumes "search m text ctx = Some (Inr ms)" "r \<in> set ms"
  shows "\<exists>k < length (split_lines (clean_text m text)).
           found m ctx k (split_lines (clean_text m text) ! k) (ready m W) r"
proof -
  let ?ls = "split_lines (clean_text m text)"
  from assms(1) obtain raw where raw: "collect_all m text ctx = Some (Inr raw)" "ms = std_sort raw"
    by (rule search_Inr)
  from raw(1) have "scan_lines m ctx ?ls 0 [] = Some (Inr raw)" by (simp add: collect_all_def)
  from scan_lines_gen [OF this, of W] assms(2) raw(2) obtain k where
    k: "k < length ?ls"
      "found m ctx k (?ls ! k) (ready m W \<and> (\<forall>c \<in> set (?ls ! k). 0 \<le> char_to_index c)) r"
    by (auto simp: set_std_sort)
  have chars: "\<forall>c \<in> set (?ls ! k). 0 \<le> char_to_index c"
    using search_line_chars(1) [of "?ls ! k" m "text"] k(1) line_char_index by auto
  from k(2) have "found m ctx k (?ls ! k) (ready m W) r"
    by (rule found_weaken) (simp add: chars)
  with k(1) show ?thesis by blast
qed

lemma collect_matches_total:
  assumes "ready m W"
  shows "a < length (heap m) \<Longrightarrow>
         \<exists>ms. collect_matches m (Some a) acc ln col lt pos ctx = Some (Inr ms)"
proof (induction "length (W a)" arbitrary: a acc rule: less_induct)
  case less
  let ?ids = "pattern_indices (heap m ! a)"
  have lk: "links_ok (heap m) W" and po: "pats_ok m W"
    using assms by (auto simp: ready_def linked_def)
  have valid: "\<forall>pid \<in> set ?ids. pid < length (patterns m)"
    using po less.prems unfolding pats_ok_def pattern_at_def by blast
  let ?acc = "acc @ map (\<lambda>pid. the_match m pid ln col lt pos ctx) ?ids"
  have step: "collect_matches m (Some a) acc ln col lt pos ctx =
              collect_matches m (output_link (heap m ! a)) ?acc ln col lt pos ctx"
    using valid by (subst collect_matches.simps) (simp add: collect_node_eq)
  show ?case
  proof (cases "output_link (heap m ! a)")
    case None
    then show ?thesis unfolding step by (subst collect_matches.simps) simp
  next
    case (Some g)
    from links_okD(2) [OF lk less.prems Some]
    have g: "g < length (heap m)" "length (W g) < length (W a)" by auto
    from less.hyps [OF g(2) g(1)] show ?thesis unfolding step Some by blast
  qed
qed

lemma ready_output_link:
  assumes "ready m W" "a < length (heap m)" "output_link (heap m ! a) = Some g"
  shows "g < length (heap m)" "pattern_indices (heap m ! g) \<noteq> []"
    "depth (heap m ! g) < depth (heap m ! a)"
proof -
  have lk: "links_ok (heap m) W" and ok: "trie_ok (heap m) W"
    using assms(1) by (auto simp: ready_def linked_def)
  from links_okD(2) [OF lk assms(2,3)]
  have g: "g < length (heap m)" "length (W g) < length (W a)" "pattern_indices (heap m ! g) \<noteq> []"
    by auto
  show "g < length (heap m)" "pattern_indices (heap m ! g) \<noteq> []" using g by auto
  show "depth (heap m ! g) < depth (heap m ! a)"
    using trie_okD(2) [OF ok g(1)] trie_okD(2) [OF ok assms(2)] g(2) by simp
qed

section \<open>The claims about initialized matchers\<close>

text \<open>
  Claim C7. After \<^verbatim>\<open>initialize\<close> has returned, the failure link of the root is the root
  itself; every output link that is not null points to a node that holds a pattern
  and whose depth is strictly smaller; and from every node the walk along the output
  links in \<^verbatim>\<open>collect_matches\<close> reaches null and returns. \<^verbatim>\<open>search\<close> is a const member
  function: it takes the matcher and returns records only, so the matcher it leaves
  behind is the one it was given.
\<close>

theorem C7_links_invariant:
  assumes "initialize pats m0 = Some (Ok m)"
  shows "failure_link (heap m ! 0) = Some 0 \<and>
         (\<forall>a g. a < length (heap m) \<and> output_link (heap m ! a) = Some g \<longrightarrow>
            g < length (heap m) \<and> pattern_indices (heap m ! g) \<noteq> [] \<and>
            depth (heap m ! g) < depth (heap m ! a)) \<and>
         (\<forall>a acc ln col lt pos ctx. a < length (heap m) \<longrightarrow>
            (\<exists>ms. collect_matches m (Some a) acc ln col lt pos ctx = Some (Inr ms)))"
proof -
  from initialize_ready [OF assms] obtain W where W: "ready m W" by blast
  have "failure_link (heap m ! 0) = Some 0" using W by (simp add: ready_def linked_def)
  moreover have "\<forall>a g. a < length (heap m) \<and> output_link (heap m ! a) = Some g \<longrightarrow>
            g < length (heap m) \<and> pattern_indices (heap m ! g) \<noteq> [] \<and>
            depth (heap m ! g) < depth (heap m ! a)"
    using ready_output_link [OF W] by blast
  moreover have "\<forall>a acc ln col lt pos ctx. a < length (heap m) \<longrightarrow>
            (\<exists>ms. collect_matches m (Some a) acc ln col lt pos ctx = Some (Inr ms))"
    using collect_matches_total [OF W] by blast
  ultimately show ?thesis by blast
qed

theorem C7_links_invariant_witness:
  "initialize [''he'', ''she'', ''hers''] (new_PatternMatcher False False) =
     Some (Ok (automaton False [''he'', ''she'', ''hers''])) \<and>
   failure_link (heap (automaton False [''he'', ''she'', ''hers'']) ! 0) = Some 0 \<and>
   output_link (heap (automaton False [''he'', ''she'', ''hers'']) ! 5) = Some 2 \<and>
   pattern_indices (heap (automaton False [''he'', ''she'', ''hers'']) ! 2) \<noteq> [] \<and>
   depth (heap (automaton False [''he'', ''she'', ''hers'']) ! 2) <
     depth (heap (automaton False [''he'', ''she'', ''hers'']) ! 5) \<and>
   (\<exists>ms. collect_matches (automaton False [''he'', ''she'', ''hers'']) (Some 5) [] 1 4 ''ushers'' 3 20
      = Some (Inr ms))"
proof -
  let ?m = "automaton False [''he'', ''she'', ''hers'']"
  have h: "initialize [''he'', ''she'', ''hers''] (new_PatternMatcher False False) = Some (Ok ?m)"
    by code_simp
  have o: "output_link (heap ?m ! 5) = Some 2" by code_simp
  have l: "5 < length (heap ?m)" by code_simp
  from C7_links_invariant [OF h] o l h show ?thesis by blast
qed

end
